theory Spec2Isabelle
  imports Complex_Main "HOL-Library.Signed_Division"
begin

section \<open>Conventions\<close>

text \<open>
  The three scripts of the theme are embedded function by function.  JavaScript numbers that
  hold pixel lengths, colour channels and angles are modelled by the reals with exact
  arithmetic (\<open>Math.cos\<close>, \<open>Math.sin\<close> and \<open>Math.PI\<close> by \<open>cos\<close>, \<open>sin\<close> and \<open>pi\<close>); counters, indices
  and the integer layout metric \<open>offsetWidth\<close> are integers.  The placement on the ring is
  given twice: \<open>positionItems\<close> in exact arithmetic, and \<open>positionItems_double\<close> with every
  operation rounded to a double, as the engine computes it.  \<open>NaN\<close> is the value \<open>None\<close> of an
  option type, a thrown \<open>TypeError\<close> is the left summand of a sum type, and a loop that the
  source does not bound returns \<open>None\<close> when it does not terminate.
\<close>

section \<open>light-rays.js\<close>

subsection \<open>The colour pattern\<close>

text \<open>
  \<open>hexToRgb\<close> matches its argument against
  \<^verbatim>\<open>/^#?([a-f\d]{2})([a-f\d]{2})([a-f\d]{2})$/i\<close>.
  The pattern is a sequence of pieces: an optional character, then three capturing groups
  of a fixed number of characters from a class.  \<open>match_pieces\<close> is the backtracking matcher
  of such a sequence, anchored at both ends (without the \<open>m\<close> flag \<open>$\<close> is the end of the
  input); it returns the captured groups.  A string is a list of 8-bit characters; a
  character of the argument outside ASCII is no member of a class of the pattern, however
  it is encoded.
\<close>

datatype piece = Optional "char list" | Group "char list" nat

fun match_pieces :: "piece list \<Rightarrow> string \<Rightarrow> string list option" where
  "match_pieces [] s = (if s = [] then Some [] else None)"
| "match_pieces (Optional cls # ps) s =
     (case s of
        [] \<Rightarrow> match_pieces ps []
      | c # r \<Rightarrow>
          (if c \<in> set cls
           then (case match_pieces ps r of
                   Some gs \<Rightarrow> Some gs
                 | None \<Rightarrow> match_pieces ps s)
           else match_pieces ps s))"
| "match_pieces (Group cls n # ps) s =
     (if n \<le> length s \<and> list_all (\<lambda>c. c \<in> set cls) (take n s)
      then map_option (\<lambda>gs. take n s # gs) (match_pieces ps (drop n s))
      else None)"

text \<open>The class \<^verbatim>\<open>[a-f\d]\<close> under the \<open>i\<close> flag.\<close>

definition hex_class :: "char list" where
  "hex_class = ''abcdefABCDEF0123456789''"

definition hex_pattern :: "piece list" where
  "hex_pattern = [Optional ''#'', Group hex_class 2, Group hex_class 2, Group hex_class 2]"

text \<open>
  \<open>parseInt(s, 16)\<close>: the value of the longest prefix of hexadecimal digits, \<open>NaN\<close> when that
  prefix is empty.  (Leading white space, a sign and the prefix \<open>0x\<close> are not modelled: the
  captured groups hold hexadecimal digits only.)
\<close>

definition digit16 :: "char \<Rightarrow> nat option" where
  "digit16 c =
     (if c \<in> set ''0123456789'' then Some (of_char c - 48)
      else if c \<in> set ''abcdef'' then Some (of_char c - 87)
      else if c \<in> set ''ABCDEF'' then Some (of_char c - 55)
      else None)"

fun parse_digits16 :: "nat \<Rightarrow> string \<Rightarrow> nat" where
  "parse_digits16 acc [] = acc"
| "parse_digits16 acc (c # cs) =
     (case digit16 c of
        None \<Rightarrow> acc
      | Some d \<Rightarrow> parse_digits16 (16 * acc + d) cs)"

definition parseInt16 :: "string \<Rightarrow> nat option" where
  "parseInt16 s =
     (case s of
        [] \<Rightarrow> None
      | c # cs \<Rightarrow> (case digit16 c of None \<Rightarrow> None | Some d \<Rightarrow> Some (parse_digits16 0 s)))"

definition channel :: "string \<Rightarrow> real option" where
  "channel g = map_option (\<lambda>v. real v / 255) (parseInt16 g)"

definition hexToRgb :: "string \<Rightarrow> real option list" where
  "hexToRgb hex =
     (case match_pieces hex_pattern hex of
        Some m \<Rightarrow> [channel (m ! 0), channel (m ! 1), channel (m ! 2)]
      | None \<Rightarrow> [Some 1, Some 1, Some 1])"

text \<open>The claim's words: an optional \<open>#\<close> followed by exactly six hexadecimal digits.\<close>

definition is_hex_digit :: "char \<Rightarrow> bool" where
  "is_hex_digit c \<longleftrightarrow> c \<in> set ''0123456789abcdefABCDEF''"

definition six_hex :: "string \<Rightarrow> bool" where
  "six_hex b \<longleftrightarrow> length b = 6 \<and> list_all is_hex_digit b"

definition hex_colour_body :: "string \<Rightarrow> string option" where
  "hex_colour_body s =
     (if six_hex s then Some s
      else (case s of
              [] \<Rightarrow> None
            | c # b \<Rightarrow> if c = CHR ''#'' \<and> six_hex b then Some b else None))"

text \<open>
  The value of a hexadecimal digit is its place in the digit table, in either case; a pair
  of digits is a byte.
\<close>

definition hex_value :: "char \<Rightarrow> nat" where
  "hex_value c =
     min (length (takeWhile (\<lambda>d. d \<noteq> c) ''0123456789abcdef''))
         (length (takeWhile (\<lambda>d. d \<noteq> c) ''0123456789ABCDEF''))"

definition byte16 :: "char \<Rightarrow> char \<Rightarrow> nat" where
  "byte16 a b = 16 * hex_value a + hex_value b"

subsection \<open>Ray anchor and direction\<close>

record ray_geometry =
  anchor :: "real \<times> real"
  dir :: "real \<times> real"

definition outside :: real where
  "outside = 0.2"

definition getAnchorAndDir :: "string \<Rightarrow> real \<Rightarrow> real \<Rightarrow> ray_geometry" where
  "getAnchorAndDir origin w h =
     (if origin = ''top-left'' then \<lparr>anchor = (0, - outside * h), dir = (0, 1)\<rparr>
      else if origin = ''top-right'' then \<lparr>anchor = (w, - outside * h), dir = (0, 1)\<rparr>
      else if origin = ''left'' then \<lparr>anchor = (- outside * w, 0.5 * h), dir = (1, 0)\<rparr>
      else if origin = ''right'' then \<lparr>anchor = ((1 + outside) * w, 0.5 * h), dir = (- 1, 0)\<rparr>
      else if origin = ''bottom-left'' then \<lparr>anchor = (0, (1 + outside) * h), dir = (0, - 1)\<rparr>
      else if origin = ''bottom-center'' then \<lparr>anchor = (0.5 * w, (1 + outside) * h), dir = (0, - 1)\<rparr>
      else if origin = ''bottom-right'' then \<lparr>anchor = (w, (1 + outside) * h), dir = (0, - 1)\<rparr>
      else \<lparr>anchor = (0.5 * w, - outside * h), dir = (0, 1)\<rparr>)"

text \<open>The names the \<open>switch\<close> distinguishes; every other string takes the default branch.\<close>

definition named_origins :: "string list" where
  "named_origins =
     [''top-left'', ''top-right'', ''left'', ''right'',
      ''bottom-left'', ''bottom-center'', ''bottom-right'']"

definition groups3 :: "piece list" where
  "groups3 = tl hex_pattern"

section \<open>theme-1.js: the circular testimonials carousel\<close>

subsection \<open>Elements and the document\<close>

text \<open>
  A carousel item is a DOM element.  \<open>Orig i\<close> is the \<open>i\<close>-th element that
  \<open>querySelectorAll('.testimonial-circle-item')\<close> returns; \<open>Clone b j\<close> is the element that
  \<open>b.cloneNode(true)\<close> created and that was pushed as \<open>items[j]\<close>.  Elements are objects, so
  every handle is truthy.
\<close>

datatype handle = Orig nat | Clone handle nat

text \<open>
  What the lookups of \<open>initCircularTestimonials\<close> find.  \<open>circle_images\<close> is the \<open>complete\<close>
  flag of each \<open>img\<close> that \<open>circle.querySelectorAll('img')\<close> returns (the query runs after
  the clones were appended); the rectangle and the item sizes are the layout values that
  \<open>positionItems\<close> reads.
\<close>

record circle_el =
  circle_items :: nat
  circle_images :: "bool list"
  circle_width :: real
  circle_height :: real
  item_offsetWidth :: "handle \<Rightarrow> int"
  item_offsetHeight :: "handle \<Rightarrow> int"

record wrapper_el =
  wrapper_circle :: "circle_el option"
  wrapper_prevBtn :: bool
  wrapper_nextBtn :: bool

type_synonym carousel_document = "wrapper_el option"

subsection \<open>Padding the items to ten\<close>

text \<open>The body of the \<open>for\<close> loop over \<open>baseItems\<close>, from index \<open>i\<close> on.\<close>

fun clone_pass :: "handle list \<Rightarrow> handle list \<Rightarrow> handle list" where
  "clone_pass [] items = items"
| "clone_pass (b # bs) items =
     (if length items < 10
      then clone_pass bs (items @ [Clone b (length items)])
      else items)"

text \<open>The \<open>while (items.length < 10)\<close> loop; \<open>None\<close> when it does not terminate.\<close>

partial_function (option) pad_loop :: "handle list \<Rightarrow> handle list \<Rightarrow> handle list option" where
  "pad_loop baseItems items =
     (if length items < 10
      then pad_loop baseItems (clone_pass baseItems items)
      else Some items)"

text \<open>
  The elements of a list of items are pairwise different nodes: no element occurs twice,
  and a clone carries the index at which it was pushed.
\<close>

definition fresh_clones :: "handle list \<Rightarrow> bool" where
  "fresh_clones items \<longleftrightarrow>
     distinct items \<and> list_all (\<lambda>h. case h of Clone b j \<Rightarrow> j < length items | Orig i \<Rightarrow> True) items"

subsection \<open>The carousel's state\<close>

record carousel =
  order :: "handle list"
  autoRotateTimer :: "nat option"
  rotate_intervals :: "nat list"
  rotate_timer_seq :: nat
  totalImages :: nat
  loadedImages :: nat
  item_transform :: "handle \<rightharpoonup> real \<times> real"
  item_opacity :: "handle \<rightharpoonup> real"
  rect_width :: real
  rect_height :: real
  offsetWidth :: "handle \<Rightarrow> int"
  offsetHeight :: "handle \<Rightarrow> int"

text \<open>\<open>Array.prototype.forEach\<close> with the index, threading the state.\<close>

fun forEach_from :: "('a \<Rightarrow> nat \<Rightarrow> 's \<Rightarrow> 's) \<Rightarrow> nat \<Rightarrow> 'a list \<Rightarrow> 's \<Rightarrow> 's" where
  "forEach_from f i [] s = s"
| "forEach_from f i (x # xs) s = forEach_from f (Suc i) xs (f x i s)"

text \<open>The placement in exact arithmetic: the ring that the code approximates.\<close>

definition radius_of :: "carousel \<Rightarrow> real" where
  "radius_of s = (let baseSize = min (rect_width s) (rect_height s) in max 210 (baseSize * 0.55))"

definition angleStep_of :: "carousel \<Rightarrow> real" where
  "angleStep_of s = (2 * pi) / real (length (order s))"

definition place_item :: "real \<Rightarrow> real \<Rightarrow> real \<Rightarrow> real \<Rightarrow> handle \<Rightarrow> nat \<Rightarrow> carousel \<Rightarrow> carousel" where
  "place_item radius centerX centerY angleStep item index s =
     (let angle = angleStep * real index - pi / 2;
          x = centerX + radius * cos angle - real_of_int (offsetWidth s item) / 2;
          y = centerY + radius * sin angle - real_of_int (offsetHeight s item) / 2
      in s\<lparr>item_transform := (item_transform s)(item \<mapsto> (x, y)),
            item_opacity := (item_opacity s)(item \<mapsto> 1)\<rparr>)"

definition positionItems :: "carousel \<Rightarrow> carousel" where
  "positionItems s =
     (let radius = radius_of s;
          centerX = rect_width s / 2;
          centerY = rect_height s / 2;
          angleStep = angleStep_of s
      in forEach_from (place_item radius centerX centerY angleStep) 0 (order s) s)"

subsection \<open>The placement in double precision\<close>












subsection \<open>Rotation, timers and initialisation\<close>

text \<open>\<open>pop\<close>, \<open>unshift\<close>, \<open>shift\<close> and \<open>push\<close> on the order; \<open>None\<close> is \<open>undefined\<close>.\<close>

definition pop :: "'a list \<Rightarrow> 'a option \<times> 'a list" where
  "pop xs = (if xs = [] then (None, []) else (Some (last xs), butlast xs))"

definition shift :: "'a list \<Rightarrow> 'a option \<times> 'a list" where
  "shift xs = (case xs of [] \<Rightarrow> (None, []) | x # r \<Rightarrow> (Some x, r))"

definition rotate_order :: "string \<Rightarrow> handle list \<Rightarrow> handle list" where
  "rotate_order direction xs =
     (if direction = ''next''
      then (case pop xs of (Some l, r) \<Rightarrow> l # r | (None, r) \<Rightarrow> r)
      else (case shift xs of (Some f, r) \<Rightarrow> r @ [f] | (None, r) \<Rightarrow> r))"

definition rotate_carousel :: "string \<Rightarrow> carousel \<Rightarrow> carousel" where
  "rotate_carousel direction s = positionItems (s\<lparr>order := rotate_order direction (order s)\<rparr>)"

definition startAutoRotate :: "carousel \<Rightarrow> carousel" where
  "startAutoRotate s =
     (let live = (case autoRotateTimer s of
                    Some t \<Rightarrow> removeAll t (rotate_intervals s)
                  | None \<Rightarrow> rotate_intervals s);
          t' = Suc (rotate_timer_seq s)
      in s\<lparr>autoRotateTimer := Some t', rotate_intervals := t' # live, rotate_timer_seq := t'\<rparr>)"

definition stopAutoRotate :: "carousel \<Rightarrow> carousel" where
  "stopAutoRotate s =
     (case autoRotateTimer s of
        Some t \<Rightarrow> s\<lparr>autoRotateTimer := None, rotate_intervals := removeAll t (rotate_intervals s)\<rparr>
      | None \<Rightarrow> s)"

text \<open>The auto-advance timer runs when \<open>autoRotateTimer\<close> holds an interval.\<close>

definition auto_advancing :: "carousel \<Rightarrow> bool" where
  "auto_advancing s \<longleftrightarrow> autoRotateTimer s \<noteq> None"


text \<open>The interval's callback; \<open>hidden\<close> is \<open>document.hidden\<close> when it fires.\<close>

definition auto_tick :: "bool \<Rightarrow> carousel \<Rightarrow> carousel" where
  "auto_tick hidden s = (if hidden then s else rotate_carousel ''next'' s)"

definition onImageLoad :: "carousel \<Rightarrow> carousel" where
  "onImageLoad s =
     (let s1 = s\<lparr>loadedImages := loadedImages s + 1\<rparr>
      in if loadedImages s1 \<ge> totalImages s1
         then startAutoRotate (positionItems s1)
         else s1)"

text \<open>
  The \<open>images.forEach\<close> of the initialisation: a complete image is counted at once, the
  others get \<open>onImageLoad\<close> as their \<open>load\<close> and \<open>error\<close> listener.
\<close>

fun count_complete :: "bool list \<Rightarrow> carousel \<Rightarrow> carousel" where
  "count_complete [] s = s"
| "count_complete (img_complete # imgs) s =
     count_complete imgs (if img_complete then onImageLoad s else s)"


datatype init_result = Disabled | Running carousel

text \<open>The variables of the closure when the listeners have been registered.\<close>

definition new_carousel :: "circle_el \<Rightarrow> handle list \<Rightarrow> carousel" where
  "new_carousel c items =
     \<lparr>order = items, autoRotateTimer = None, rotate_intervals = [],
      rotate_timer_seq = 0, totalImages = length (circle_images c), loadedImages = 0,
      item_transform = Map.empty, item_opacity = Map.empty,
      rect_width = circle_width c, rect_height = circle_height c,
      offsetWidth = item_offsetWidth c, offsetHeight = item_offsetHeight c\<rparr>"

definition start_carousel :: "circle_el \<Rightarrow> handle list \<Rightarrow> carousel" where
  "start_carousel c items =
     (let s0 = new_carousel c items;
          s1 = (if totalImages s0 = 0
                then startAutoRotate (positionItems s0)
                else count_complete (circle_images c) s0)
      in positionItems s1)"

text \<open>
  \<open>Some Disabled\<close>: the early \<open>return\<close>, before any clone, listener or timer exists.
  \<open>None\<close>: the padding loop does not terminate.
\<close>

definition initCircularTestimonials :: "carousel_document \<Rightarrow> init_result option" where
  "initCircularTestimonials wrapper =
     (let circle = (case wrapper of Some w \<Rightarrow> wrapper_circle w | None \<Rightarrow> None);
          items = (case circle of Some c \<Rightarrow> map Orig [0..<circle_items c] | None \<Rightarrow> []);
          prevBtn = (case wrapper of Some w \<Rightarrow> wrapper_prevBtn w | None \<Rightarrow> False);
          nextBtn = (case wrapper of Some w \<Rightarrow> wrapper_nextBtn w | None \<Rightarrow> False)
      in case circle of
           None \<Rightarrow> Some Disabled
         | Some c \<Rightarrow>
             if wrapper = None \<or> items = [] \<or> \<not> prevBtn \<or> \<not> nextBtn then Some Disabled
             else (case pad_loop items items of
                     None \<Rightarrow> None
                   | Some items' \<Rightarrow> Some (Running (start_carousel c items'))))"

text \<open>A required anchor of the carousel is absent from the document.\<close>

definition carousel_anchor_missing :: "carousel_document \<Rightarrow> bool" where
  "carousel_anchor_missing wrapper =
     (case wrapper of
        None \<Rightarrow> True
      | Some w \<Rightarrow>
          (case wrapper_circle w of None \<Rightarrow> True | Some c \<Rightarrow> circle_items c = 0)
          \<or> \<not> wrapper_prevBtn w \<or> \<not> wrapper_nextBtn w)"

text \<open>
  A document with every anchor of the carousel: \<open>n\<close> items of 200 by 120 pixels in a circle
  of 600 by 400 pixels that holds the images \<open>imgs\<close>.
\<close>

definition sample_circle :: "nat \<Rightarrow> bool list \<Rightarrow> circle_el" where
  "sample_circle n imgs =
     \<lparr>circle_items = n, circle_images = imgs, circle_width = 600, circle_height = 400,
      item_offsetWidth = (\<lambda>h. 200), item_offsetHeight = (\<lambda>h. 120)\<rparr>"

definition sample_wrapper :: "nat \<Rightarrow> bool list \<Rightarrow> wrapper_el" where
  "sample_wrapper n imgs =
     \<lparr>wrapper_circle = Some (sample_circle n imgs), wrapper_prevBtn = True,
      wrapper_nextBtn = True\<rparr>"

section \<open>video-testimonials.js: the infinite slider\<close>

subsection \<open>State\<close>

datatype error = TypeError

definition bind_err :: "error + 'a \<Rightarrow> ('a \<Rightarrow> error + 'b) \<Rightarrow> error + 'b" where
  "bind_err r f = (case r of Inl e \<Rightarrow> Inl e | Inr x \<Rightarrow> f x)"

text \<open>
  A card of the track: the original it shows, whether it carries the class \<open>cloned\<close>, and
  its layout width \<open>offsetWidth\<close> (an integer number of pixels).
\<close>

record card =
  card_source :: nat
  cloned :: bool
  card_offsetWidth :: int

text \<open>What \<open>init\<close> finds in the document.\<close>

record slider_document =
  doc_track :: "card list option"
  doc_slider :: bool
  doc_pagination :: "bool list option"

text \<open>
  The callbacks handed to \<open>setTimeout\<close>: \<open>init\<close> itself, the deferred set-up of \<open>init\<close>, and
  the two re-homing callbacks of \<open>checkLoop\<close> (the second one captures \<open>maxIndex - 1\<close>).
\<close>

datatype callback = RetryInit | InitSetup | RehomeStart | RehomeEnd int

text \<open>
  The module's variables, the style of the track that the module writes, the dots of the
  pagination element with their \<open>active\<close> flag, and the pending timers.  \<open>track\<close> holds the
  children of the track element, \<open>None\<close> while the variable is \<open>undefined\<close> or \<open>null\<close>; likewise
  \<open>cards\<close> and \<open>pagination\<close>.  \<open>isRTL\<close> and \<open>innerWidth\<close> are read from the document and the
  window.  The styles of the cards, the navigation buttons, the video modal and the
  debounced resize handler are not modelled.
\<close>

record slider =
  track :: "card list option"
  track_transition :: bool
  track_transform :: "real option"
  track_cursor :: string
  slider_el :: bool
  pagination :: "bool list option"
  cards :: "card list option"
  originalCards :: "card list"
  totalSlides :: int
  current :: int
  perView :: nat
  autoplayTimer :: "nat option"
  autoplay_intervals :: "nat list"
  autoplay_timer_seq :: nat
  timeouts :: "(nat \<times> callback) list"
  resize_listeners :: nat
  isDragging :: bool
  startX :: real
  currentTranslate :: real
  prevTranslate :: real
  isRTL :: bool
  innerWidth :: int

definition config_autoplay :: bool where "config_autoplay = True"
definition config_delay :: nat where "config_delay = 3000"
definition config_transition :: nat where "config_transition = 500"

text \<open>The module's state when the script has been evaluated and \<open>init\<close> has not run.\<close>

definition initial_slider :: "bool \<Rightarrow> int \<Rightarrow> slider" where
  "initial_slider rtl w =
     \<lparr>track = None, track_transition = False, track_transform = None, track_cursor = [],
      slider_el = False, pagination = None, cards = None, originalCards = [],
      totalSlides = 0, current = 0, perView = 4, autoplayTimer = None,
      autoplay_intervals = [], autoplay_timer_seq = 0, timeouts = [], resize_listeners = 0,
      isDragging = False, startX = 0, currentTranslate = 0, prevTranslate = 0,
      isRTL = rtl, innerWidth = w\<rparr>"

subsection \<open>Layout and pagination\<close>

definition setPerView :: "slider \<Rightarrow> slider" where
  "setPerView s =
     (let w = innerWidth s
      in s\<lparr>perView := (if w < 640 then 1 else if w < 768 then 1 else if w < 1024 then 2
                        else if w < 1400 then 3 else 4)\<rparr>)"

definition gap_of :: "int \<Rightarrow> int" where
  "gap_of w = (if w \<le> 480 then 0 else if w \<le> 640 then 12 else 24)"

text \<open>\<open>%\<close> on integers is the truncating remainder; by zero it is \<open>NaN\<close>.\<close>

definition getRealIndex :: "int \<Rightarrow> slider \<Rightarrow> int option" where
  "getRealIndex index s =
     (if totalSlides s = 0 then None
      else (let realIdx = (index - totalSlides s) smod totalSlides s
            in Some (if realIdx < 0 then realIdx + totalSlides s else realIdx)))"

definition updatePagination :: "slider \<Rightarrow> slider" where
  "updatePagination s =
     (case pagination s of
        None \<Rightarrow> s
      | Some dots \<Rightarrow>
          (let realIndex = getRealIndex (current s) s
           in s\<lparr>pagination := Some (map (\<lambda>i. Some (int i) = realIndex) [0..<length dots])\<rparr>))"

text \<open>The \<open>for\<close> loop of \<open>createPagination\<close>: one new dot for every \<open>i < totalSlides\<close>.\<close>

function append_dots :: "int \<Rightarrow> int \<Rightarrow> bool list \<Rightarrow> bool list" where
  "append_dots i n dots = (if i < n then append_dots (i + 1) n (dots @ [False]) else dots)"
  by pat_completeness auto
termination
  by (relation "measure (\<lambda>(i, n, dots). nat (n - i))") auto

declare append_dots.simps [simp del]

definition createPagination :: "slider \<Rightarrow> slider" where
  "createPagination s =
     (case pagination s of
        None \<Rightarrow> s
      | Some dots \<Rightarrow> updatePagination (s\<lparr>pagination := Some (append_dots 0 (totalSlides s) [])\<rparr>))"

subsection \<open>Moving the track\<close>

definition update :: "bool \<Rightarrow> slider \<Rightarrow> error + slider" where
  "update animate s =
     (case cards s of
        None \<Rightarrow> Inr s
      | Some [] \<Rightarrow> Inr s
      | Some (c # cs) \<Rightarrow>
          (let w = innerWidth s;
               cardWidth = card_offsetWidth c;
               gap = gap_of w;
               offset = (cardWidth + gap) * current s;
               v = (if isRTL s then offset else - offset)
           in case track s of
                None \<Rightarrow> Inl TypeError
              | Some children \<Rightarrow>
                  Inr (updatePagination
                        (s\<lparr>track_transition := animate, track_transform := Some (real_of_int v)\<rparr>))))"

definition goToSlide :: "int \<Rightarrow> slider \<Rightarrow> error + slider" where
  "goToSlide index s = update True (s\<lparr>current := index + totalSlides s\<rparr>)"

definition checkLoop :: "slider \<Rightarrow> error + slider" where
  "checkLoop s =
     (case cards s of
        None \<Rightarrow> Inl TypeError
      | Some cs \<Rightarrow>
          (let maxIndex = int (length cs) - totalSlides s
           in if current s \<ge> maxIndex
              then Inr (s\<lparr>timeouts := timeouts s @ [(config_transition, RehomeStart)]\<rparr>)
              else if current s < totalSlides s
              then Inr (s\<lparr>timeouts := timeouts s @ [(config_transition, RehomeEnd (maxIndex - 1))]\<rparr>)
              else Inr s))"

definition "next" :: "slider \<Rightarrow> error + slider" where
  "next s = bind_err (update True (s\<lparr>current := current s + 1\<rparr>)) checkLoop"

definition prev :: "slider \<Rightarrow> error + slider" where
  "prev s = bind_err (update True (s\<lparr>current := current s - 1\<rparr>)) checkLoop"

subsection \<open>Autoplay\<close>

definition stopAutoplay :: "slider \<Rightarrow> slider" where
  "stopAutoplay s =
     (case autoplayTimer s of
        Some t \<Rightarrow> s\<lparr>autoplayTimer := None, autoplay_intervals := removeAll t (autoplay_intervals s)\<rparr>
      | None \<Rightarrow> s)"

definition arm_autoplay :: "slider \<Rightarrow> slider" where
  "arm_autoplay s =
     (let t = Suc (autoplay_timer_seq s)
      in s\<lparr>autoplayTimer := Some t, autoplay_intervals := t # autoplay_intervals s,
            autoplay_timer_seq := t\<rparr>)"

definition initAutoplay :: "slider \<Rightarrow> slider" where
  "initAutoplay s = (if \<not> config_autoplay then s else arm_autoplay s)"

definition resetAutoplay :: "slider \<Rightarrow> slider" where
  "resetAutoplay s =
     (let s1 = stopAutoplay s in if config_autoplay then arm_autoplay s1 else s1)"

subsection \<open>Dragging\<close>

text \<open>
  \<open>x\<close> is \<open>getX(e)\<close>, the pointer's \<open>clientX\<close>; \<open>tx\<close> is \<open>getTranslateX()\<close>, the horizontal
  translation of the track's computed transform when the gesture starts.
\<close>

definition startDrag :: "real \<Rightarrow> real \<Rightarrow> slider \<Rightarrow> error + slider" where
  "startDrag x tx s =
     (case track s of
        None \<Rightarrow> Inl TypeError
      | Some children \<Rightarrow>
          Inr (stopAutoplay
                (s\<lparr>isDragging := True, startX := x, prevTranslate := tx,
                   track_transition := False, track_cursor := ''grabbing''\<rparr>)))"

definition drag :: "real \<Rightarrow> slider \<Rightarrow> error + slider" where
  "drag x s =
     (if \<not> isDragging s then Inr s
      else (let deltaX = x - startX s;
                s1 = s\<lparr>currentTranslate := prevTranslate s + deltaX\<rparr>
            in case track s1 of
                 None \<Rightarrow> Inl TypeError
               | Some children \<Rightarrow> Inr (s1\<lparr>track_transform := Some (currentTranslate s1)\<rparr>)))"

definition endDrag :: "slider \<Rightarrow> error + slider" where
  "endDrag s =
     (if \<not> isDragging s then Inr s
      else (case track s of
              None \<Rightarrow> Inl TypeError
            | Some children \<Rightarrow>
                (let s1 = s\<lparr>isDragging := False, track_cursor := ''grab''\<rparr>;
                     moved = currentTranslate s1 - prevTranslate s1
                 in case cards s1 of
                      None \<Rightarrow> Inl TypeError
                    | Some [] \<Rightarrow> Inl TypeError
                    | Some (c # cs) \<Rightarrow>
                        (let cardWidth = card_offsetWidth c;
                             threshold = real_of_int cardWidth / 3
                         in bind_err
                              (if \<bar>moved\<bar> > threshold
                               then (if moved < 0
                                     then (if isRTL s1 then prev s1 else next s1)
                                     else (if isRTL s1 then next s1 else prev s1))
                               else update True s1)
                              (\<lambda>s2. Inr (resetAutoplay s2))))))"

text \<open>The pointer moves through the positions \<open>xs\<close> while the button is held.\<close>

fun drag_through :: "real list \<Rightarrow> slider \<Rightarrow> error + slider" where
  "drag_through [] s = Inr s"
| "drag_through (x # xs) s = bind_err (drag x s) (drag_through xs)"

text \<open>A whole gesture: press at \<open>x0\<close>, move through \<open>xs\<close>, release.\<close>

definition gesture :: "real \<Rightarrow> real \<Rightarrow> real list \<Rightarrow> slider \<Rightarrow> error + slider" where
  "gesture x0 tx xs s = bind_err (bind_err (startDrag x0 tx s) (drag_through xs)) endDrag"

subsection \<open>Initialisation and timers\<close>

definition clone_card :: "card \<Rightarrow> card" where
  "clone_card c = c\<lparr>cloned := True\<rparr>"

definition cloneCards :: "slider \<Rightarrow> error + slider" where
  "cloneCards s =
     (case track s of
        None \<Rightarrow> Inl TypeError
      | Some children \<Rightarrow>
          if list_ex cloned children then Inr s
          else if length (originalCards s) = 0 then Inr s
          else (let appended = foldl (\<lambda>t c. t @ [clone_card c]) children (originalCards s);
                    inserted = foldl (\<lambda>t c. clone_card c # t) appended (rev (originalCards s))
                in Inr (setPerView (s\<lparr>track := Some inserted, cards := Some inserted\<rparr>))))"

definition init :: "slider_document \<Rightarrow> slider \<Rightarrow> slider" where
  "init doc s =
     (let s1 = s\<lparr>track := doc_track doc, slider_el := doc_slider doc\<rparr>
      in case track s1 of
           None \<Rightarrow> s1\<lparr>timeouts := timeouts s1 @ [(100, RetryInit)]\<rparr>
         | Some children \<Rightarrow>
             if \<not> slider_el s1 then s1\<lparr>timeouts := timeouts s1 @ [(100, RetryInit)]\<rparr>
             else (let s2 = s1\<lparr>originalCards := children\<rparr>
                   in if length (originalCards s2) = 0
                      then s2\<lparr>timeouts := timeouts s2 @ [(100, RetryInit)]\<rparr>
                      else s2\<lparr>pagination := doc_pagination doc,
                              totalSlides := int (length (originalCards s2)),
                              timeouts := timeouts s2 @ [(100, InitSetup)],
                              resize_listeners := resize_listeners s2 + 1\<rparr>))"

definition init_setup :: "slider \<Rightarrow> error + slider" where
  "init_setup s =
     bind_err (cloneCards (setPerView s))
       (\<lambda>s1. bind_err (update False ((createPagination s1)\<lparr>current := totalSlides s1\<rparr>))
          (\<lambda>s2. Inr (initAutoplay s2)))"

definition run_callback :: "slider_document \<Rightarrow> callback \<Rightarrow> slider \<Rightarrow> error + slider" where
  "run_callback doc cb s =
     (case cb of
        RetryInit \<Rightarrow> Inr (init doc s)
      | InitSetup \<Rightarrow> init_setup s
      | RehomeStart \<Rightarrow> update False (s\<lparr>current := totalSlides s\<rparr>)
      | RehomeEnd m \<Rightarrow> update False (s\<lparr>current := m\<rparr>))"

fun fire_all :: "slider_document \<Rightarrow> callback list \<Rightarrow> slider \<Rightarrow> error + slider" where
  "fire_all doc [] s = Inr s"
| "fire_all doc (cb # cbs) s = bind_err (run_callback doc cb s) (fire_all doc cbs)"

text \<open>The pending timers fire, in the order in which they were set.\<close>

definition settle :: "slider_document \<Rightarrow> slider \<Rightarrow> error + slider" where
  "settle doc s = fire_all doc (map snd (timeouts s)) (s\<lparr>timeouts := []\<rparr>)"

text \<open>\<open>next()\<close>, then the timer of its loop check fires.\<close>

definition next_settled :: "slider_document \<Rightarrow> slider \<Rightarrow> error + slider" where
  "next_settled doc s = bind_err (next s) (settle doc)"

definition prev_settled :: "slider_document \<Rightarrow> slider \<Rightarrow> error + slider" where
  "prev_settled doc s = bind_err (prev s) (settle doc)"

fun repeat_next :: "nat \<Rightarrow> slider_document \<Rightarrow> slider \<Rightarrow> error + slider" where
  "repeat_next 0 doc s = Inr s"
| "repeat_next (Suc k) doc s = bind_err (next_settled doc s) (repeat_next k doc)"

text \<open>The pixel offset that \<open>update\<close> computes for a cursor value.\<close>

definition offset_at :: "slider \<Rightarrow> int \<Rightarrow> int" where
  "offset_at s cur =
     (case cards s of
        Some (c # cs) \<Rightarrow> (card_offsetWidth c + gap_of (innerWidth s)) * cur
      | _ \<Rightarrow> 0)"

text \<open>
  The slider is set up over \<open>N\<close> originals: the track is there, \<open>cards\<close> holds the \<open>3 N\<close> cards
  of the track after cloning, \<open>totalSlides\<close> is \<open>N\<close>, and no timer is pending.
\<close>

definition on_track :: "int \<Rightarrow> slider \<Rightarrow> bool" where
  "on_track N s \<longleftrightarrow>
     0 < N \<and> totalSlides s = N \<and> track s \<noteq> None \<and> timeouts s = []
     \<and> (case cards s of Some cs \<Rightarrow> cs \<noteq> [] \<and> int (length cs) = 3 * N | None \<Rightarrow> False)"

text \<open>
  The slider after \<open>current = m; update(animate)\<close>, when the cards and the track are there.
\<close>

definition moved_to :: "bool \<Rightarrow> int \<Rightarrow> slider \<Rightarrow> slider" where
  "moved_to animate m s =
     updatePagination
       (s\<lparr>current := m, track_transition := animate,
          track_transform :=
            Some (real_of_int (if isRTL s then offset_at s m else - offset_at s m))\<rparr>)"

text \<open>A required anchor of the slider is absent from the document.\<close>

definition slider_anchor_missing :: "slider_document \<Rightarrow> bool" where
  "slider_anchor_missing doc =
     (case doc_track doc of None \<Rightarrow> True | Some children \<Rightarrow> \<not> doc_slider doc \<or> children = [])"

text \<open>
  A document with every anchor of the slider: \<open>n\<close> cards, each \<open>width\<close> pixels wide, and an
  empty pagination element.
\<close>

definition sample_document :: "nat \<Rightarrow> int \<Rightarrow> slider_document" where
  "sample_document n width =
     \<lparr>doc_track = Some (map (\<lambda>i. \<lparr>card_source = i, cloned = False, card_offsetWidth = width\<rparr>) [0..<n]),
      doc_slider = True, doc_pagination = Some []\<rparr>"

text \<open>The slider when \<open>init\<close> has run on a document and its deferred set-up has fired.\<close>

definition started :: "slider_document \<Rightarrow> bool \<Rightarrow> int \<Rightarrow> error + slider" where
  "started doc rtl w = settle doc (init doc (initial_slider rtl w))"

section \<open>Properties of light-rays.js\<close>

subsection \<open>The colour pattern accepts exactly the six-digit colours\<close>



lemma digit16_table:
  "list_all (\<lambda>c. digit16 c = Some (hex_value c) \<and> hex_value c < 16) ''0123456789abcdefABCDEF''"
  by code_simp

lemma digit16_hex: "is_hex_digit c \<Longrightarrow> digit16 c = Some (hex_value c) \<and> hex_value c < 16"
  using digit16_table unfolding is_hex_digit_def list_all_iff by blast

lemma hash_not_hex: "\<not> is_hex_digit CHR ''#''"
  by (simp add: is_hex_digit_def)

lemma hex_class_iff: "c \<in> set hex_class \<longleftrightarrow> is_hex_digit c"
  by (auto simp: hex_class_def is_hex_digit_def)


lemma six_hex_shape:
  "six_hex s \<longleftrightarrow> (\<exists>a b c d e f. s = [a, b, c, d, e, f] \<and> is_hex_digit a \<and> is_hex_digit b
      \<and> is_hex_digit c \<and> is_hex_digit d \<and> is_hex_digit e \<and> is_hex_digit f)"
proof
  assume h: "six_hex s"
  then have "length s = 6" by (simp add: six_hex_def)
  then obtain a b c d e f where s: "s = [a, b, c, d, e, f]"
    by (auto simp: numeral_eq_Suc length_Suc_conv)
  with h show "\<exists>a b c d e f. s = [a, b, c, d, e, f] \<and> is_hex_digit a \<and> is_hex_digit b
      \<and> is_hex_digit c \<and> is_hex_digit d \<and> is_hex_digit e \<and> is_hex_digit f"
    by (simp add: six_hex_def)
next
  assume "\<exists>a b c d e f. s = [a, b, c, d, e, f] \<and> is_hex_digit a \<and> is_hex_digit b
      \<and> is_hex_digit c \<and> is_hex_digit d \<and> is_hex_digit e \<and> is_hex_digit f"
  then show "six_hex s" by (auto simp: six_hex_def)
qed

lemma groups3_eq: "groups3 = [Group hex_class 2, Group hex_class 2, Group hex_class 2]"
  by (simp add: groups3_def hex_pattern_def)

lemma groups3_some:
  "six_hex s \<Longrightarrow> match_pieces groups3 s = Some [take 2 s, take 2 (drop 2 s), drop 4 s]"
  by (auto simp: six_hex_shape groups3_eq hex_class_iff)

lemma groups3_none:
  assumes "\<not> six_hex s" shows "match_pieces groups3 s = None"
proof (rule ccontr)
  assume "match_pieces groups3 s \<noteq> None"
  then have l: "2 \<le> length s" "2 \<le> length (drop 2 s)" "2 \<le> length (drop 4 s)" "drop 6 s = []"
    and a: "list_all is_hex_digit (take 2 s)" "list_all is_hex_digit (take 2 (drop 2 s))"
     "list_all is_hex_digit (take 2 (drop 4 s))"
    by (auto simp: groups3_eq hex_class_iff split: if_splits)
  from l have len: "length s = 6" by auto
  then obtain a b c d e f where s: "s = [a, b, c, d, e, f]"
    by (auto simp: numeral_eq_Suc length_Suc_conv)
  with a have "six_hex s" by (simp add: six_hex_def)
  with assms show False by simp
qed



lemma match_hex_pattern:
  "match_pieces hex_pattern s =
     map_option (\<lambda>b. [take 2 b, take 2 (drop 2 b), drop 4 b]) (hex_colour_body s)"
proof (cases s)
  case Nil
  then show ?thesis
    using groups3_none [of "[]"]
    by (simp add: hex_pattern_def groups3_eq hex_colour_body_def six_hex_def)
next
  case (Cons c r)
  show ?thesis
  proof (cases "c = CHR ''#''")
    case True
    have ns: "\<not> six_hex s" using Cons True hash_not_hex by (auto simp: six_hex_shape)
    show ?thesis
    proof (cases "six_hex r")
      case True
      with ns Cons \<open>c = CHR ''#''\<close> groups3_some [OF True] show ?thesis
        by (simp add: hex_pattern_def groups3_eq hex_colour_body_def)
    next
      case False
      with ns Cons \<open>c = CHR ''#''\<close> groups3_none [OF False] groups3_none [OF ns] show ?thesis
        by (simp add: hex_pattern_def groups3_eq hex_colour_body_def)
    qed
  next
    case False
    show ?thesis
    proof (cases "six_hex s")
      case True
      with Cons False groups3_some [OF True] show ?thesis
        by (simp add: hex_pattern_def groups3_eq hex_colour_body_def)
    next
      case ns: False
      with Cons False groups3_none [OF ns] show ?thesis
        by (simp add: hex_pattern_def groups3_eq hex_colour_body_def)
    qed
  qed
qed



lemma channel_pair:
  "is_hex_digit a \<Longrightarrow> is_hex_digit b \<Longrightarrow> channel [a, b] = Some (real (byte16 a b) / 255)"
  using digit16_hex [of a] digit16_hex [of b]
  by (simp add: channel_def parseInt16_def byte16_def)

lemma byte16_le: "is_hex_digit a \<Longrightarrow> is_hex_digit b \<Longrightarrow> byte16 a b \<le> 255"
  using digit16_hex [of a] digit16_hex [of b]
  by (simp add: byte16_def)

lemma hex_colour_body_six: "hex_colour_body s = Some b \<Longrightarrow> six_hex b"
  by (auto simp: hex_colour_body_def split: if_splits list.splits)

lemma hexToRgb_body:
  assumes "hex_colour_body s = Some b"
  shows "hexToRgb s = [Some (real (byte16 (b ! 0) (b ! 1)) / 255),
                       Some (real (byte16 (b ! 2) (b ! 3)) / 255),
                       Some (real (byte16 (b ! 4) (b ! 5)) / 255)]"
proof -
  from hex_colour_body_six [OF assms] obtain a1 a2 a3 a4 a5 a6 where
    b: "b = [a1, a2, a3, a4, a5, a6]" and h: "is_hex_digit a1" "is_hex_digit a2" "is_hex_digit a3"
      "is_hex_digit a4" "is_hex_digit a5" "is_hex_digit a6"
    by (auto simp: six_hex_shape)
  show ?thesis
    using assms h by (simp add: hexToRgb_def match_hex_pattern b channel_pair)
qed

lemma hexToRgb_bounds_body:
  assumes "hex_colour_body s = Some b"
  shows "\<forall>c \<in> set (hexToRgb s). \<exists>v. c = Some v \<and> 0 \<le> v \<and> v \<le> 1"
proof -
  from hex_colour_body_six [OF assms] obtain a1 a2 a3 a4 a5 a6 where
    b: "b = [a1, a2, a3, a4, a5, a6]" and h: "is_hex_digit a1" "is_hex_digit a2" "is_hex_digit a3"
      "is_hex_digit a4" "is_hex_digit a5" "is_hex_digit a6"
    by (auto simp: six_hex_shape)
  have bound: "\<exists>v. Some (real n / 255) = Some v \<and> 0 \<le> v \<and> v \<le> 1" if "n \<le> 255" for n :: nat
    using that by (intro exI [of _ "real n / 255"]) simp
  show ?thesis
    using bound [OF byte16_le [OF h(1) h(2)]] bound [OF byte16_le [OF h(3) h(4)]]
      bound [OF byte16_le [OF h(5) h(6)]]
    by (simp add: hexToRgb_body [OF assms] b del: option.inject)
qed

lemma hexToRgb_none: "hex_colour_body s = None \<Longrightarrow> hexToRgb s = [Some 1, Some 1, Some 1]"
  by (simp add: hexToRgb_def match_hex_pattern)

text \<open>
  Claim C10.  \<open>hexToRgb\<close> is total on strings.  For a string that is an optional \<open>#\<close>
  followed by exactly six hexadecimal digits it returns the three bytes that the digit
  pairs denote, each divided by 255; for every other string it returns \<open>[1, 1, 1]\<close>.  Every
  component it returns is a number (never \<open>NaN\<close>) between 0 and 1.
\<close>

theorem hexToRgb_total:
  "hexToRgb s =
     (case hex_colour_body s of
        Some b \<Rightarrow> [Some (real (byte16 (b ! 0) (b ! 1)) / 255),
                   Some (real (byte16 (b ! 2) (b ! 3)) / 255),
                   Some (real (byte16 (b ! 4) (b ! 5)) / 255)]
      | None \<Rightarrow> [Some 1, Some 1, Some 1])
   \<and> (\<forall>c \<in> set (hexToRgb s). \<exists>v. c = Some v \<and> 0 \<le> v \<and> v \<le> 1)"
proof (cases "hex_colour_body s")
  case None
  then show ?thesis by (simp add: hexToRgb_none)
next
  case (Some b)
  then show ?thesis using hexToRgb_body [OF Some] hexToRgb_bounds_body [OF Some] by simp
qed





theorem hexToRgb_total_witness:
  "hexToRgb ''#ff8000'' = [Some 1, Some (128 / 255), Some 0]
   \<and> hexToRgb ''1A2b3C'' = [Some (26 / 255), Some (43 / 255), Some (60 / 255)]
   \<and> hexToRgb ''#ff80'' = [Some 1, Some 1, Some 1]
   \<and> hexToRgb ''red'' = [Some 1, Some 1, Some 1]"
proof -
  have b1: "hex_colour_body ''#ff8000'' = Some ''ff8000''"
    and b2: "hex_colour_body ''1A2b3C'' = Some ''1A2b3C''"
    and b3: "hex_colour_body ''#ff80'' = None"
    and b4: "hex_colour_body ''red'' = None"
    by code_simp+
  have v: "byte16 CHR ''f'' CHR ''f'' = 255" "byte16 CHR ''8'' CHR ''0'' = 128"
    "byte16 CHR ''0'' CHR ''0'' = 0" "byte16 CHR ''1'' CHR ''A'' = 26"
    "byte16 CHR ''2'' CHR ''b'' = 43" "byte16 CHR ''3'' CHR ''C'' = 60"
    by code_simp+
  show ?thesis
    using hexToRgb_total [of "''#ff8000''"] hexToRgb_total [of "''1A2b3C''"]
      hexToRgb_total [of "''#ff80''"] hexToRgb_total [of "''red''"]
    by (simp add: b1 b2 b3 b4 v)
qed

subsection \<open>Ray anchors\<close>

text \<open>
  Claim C6.  For viewport dimensions \<open>w\<close> and \<open>h\<close>, every named origin is mapped to an anchor
  20 percent outside its edge of the viewport and to the unit direction that points back
  into it: \<open>left\<close> gives \<open>(-0.2 w, 0.5 h)\<close> with \<open>(1, 0)\<close>, \<open>bottom-right\<close> gives \<open>(w, 1.2 h)\<close> with
  \<open>(0, -1)\<close>, the \<open>top-\<close> origins point \<open>(0, 1)\<close>, the \<open>bottom-\<close> origins \<open>(0, -1)\<close>, \<open>right\<close> points
  \<open>(-1, 0)\<close>; \<open>top-center\<close> and every string that is not one of the seven case labels take the
  default branch, \<open>(0.5 w, -0.2 h)\<close> with \<open>(0, 1)\<close>.  The direction is a unit vector for every
  origin.
\<close>

theorem getAnchorAndDir_presets:
  "getAnchorAndDir ''top-left'' w h = \<lparr>anchor = (0, - 0.2 * h), dir = (0, 1)\<rparr>
   \<and> getAnchorAndDir ''top-right'' w h = \<lparr>anchor = (w, - 0.2 * h), dir = (0, 1)\<rparr>
   \<and> getAnchorAndDir ''top-center'' w h = \<lparr>anchor = (0.5 * w, - 0.2 * h), dir = (0, 1)\<rparr>
   \<and> getAnchorAndDir ''left'' w h = \<lparr>anchor = (- 0.2 * w, 0.5 * h), dir = (1, 0)\<rparr>
   \<and> getAnchorAndDir ''right'' w h = \<lparr>anchor = (1.2 * w, 0.5 * h), dir = (- 1, 0)\<rparr>
   \<and> getAnchorAndDir ''bottom-left'' w h = \<lparr>anchor = (0, 1.2 * h), dir = (0, - 1)\<rparr>
   \<and> getAnchorAndDir ''bottom-center'' w h = \<lparr>anchor = (0.5 * w, 1.2 * h), dir = (0, - 1)\<rparr>
   \<and> getAnchorAndDir ''bottom-right'' w h = \<lparr>anchor = (w, 1.2 * h), dir = (0, - 1)\<rparr>
   \<and> (origin \<notin> set named_origins \<longrightarrow>
        getAnchorAndDir origin w h = \<lparr>anchor = (0.5 * w, - 0.2 * h), dir = (0, 1)\<rparr>)
   \<and> (fst (dir (getAnchorAndDir origin w h)))\<^sup>2 + (snd (dir (getAnchorAndDir origin w h)))\<^sup>2 = 1"
  by (simp add: getAnchorAndDir_def outside_def named_origins_def)

theorem getAnchorAndDir_presets_witness:
  "''center'' \<notin> set named_origins
   \<and> getAnchorAndDir ''center'' 800 600 = \<lparr>anchor = (400, - 120), dir = (0, 1)\<rparr>
   \<and> getAnchorAndDir ''left'' 800 600 = \<lparr>anchor = (- 160, 300), dir = (1, 0)\<rparr>
   \<and> getAnchorAndDir ''bottom-right'' 800 600 = \<lparr>anchor = (800, 720), dir = (0, - 1)\<rparr>"
  using getAnchorAndDir_presets [of 800 600 "''center''"]
  by (simp add: named_origins_def)


section \<open>Properties of the circular carousel\<close>

subsection \<open>Frame lemmas of the carousel\<close>

lemma place_item_frame:
  "order (place_item r cx cy a item i s) = order s"
  "offsetWidth (place_item r cx cy a item i s) = offsetWidth s"
  "offsetHeight (place_item r cx cy a item i s) = offsetHeight s"
  "rect_width (place_item r cx cy a item i s) = rect_width s"
  "rect_height (place_item r cx cy a item i s) = rect_height s"
  "autoRotateTimer (place_item r cx cy a item i s) = autoRotateTimer s"
  "rotate_intervals (place_item r cx cy a item i s) = rotate_intervals s"
  "rotate_timer_seq (place_item r cx cy a item i s) = rotate_timer_seq s"
  "totalImages (place_item r cx cy a item i s) = totalImages s"
  "loadedImages (place_item r cx cy a item i s) = loadedImages s"
  by (simp_all add: place_item_def Let_def)

lemma forEach_place_frame:
  "order (forEach_from (place_item r cx cy a) i xs s) = order s"
  "offsetWidth (forEach_from (place_item r cx cy a) i xs s) = offsetWidth s"
  "offsetHeight (forEach_from (place_item r cx cy a) i xs s) = offsetHeight s"
  "rect_width (forEach_from (place_item r cx cy a) i xs s) = rect_width s"
  "rect_height (forEach_from (place_item r cx cy a) i xs s) = rect_height s"
  "autoRotateTimer (forEach_from (place_item r cx cy a) i xs s) = autoRotateTimer s"
  "rotate_intervals (forEach_from (place_item r cx cy a) i xs s) = rotate_intervals s"
  "rotate_timer_seq (forEach_from (place_item r cx cy a) i xs s) = rotate_timer_seq s"
  "totalImages (forEach_from (place_item r cx cy a) i xs s) = totalImages s"
  "loadedImages (forEach_from (place_item r cx cy a) i xs s) = loadedImages s"
  by (induction xs arbitrary: i s; simp add: place_item_frame)+

lemma positionItems_frame:
  "order (positionItems s) = order s"
  "offsetWidth (positionItems s) = offsetWidth s"
  "offsetHeight (positionItems s) = offsetHeight s"
  "rect_width (positionItems s) = rect_width s"
  "rect_height (positionItems s) = rect_height s"
  "autoRotateTimer (positionItems s) = autoRotateTimer s"
  "rotate_intervals (positionItems s) = rotate_intervals s"
  "rotate_timer_seq (positionItems s) = rotate_timer_seq s"
  "totalImages (positionItems s) = totalImages s"
  "loadedImages (positionItems s) = loadedImages s"
  by (simp_all add: positionItems_def Let_def forEach_place_frame)





lemma radius_ge: "210 \<le> radius_of s"
  by (simp add: radius_of_def Let_def)


subsection \<open>The placement in double precision\<close>









lemma rotate_next_eq: "rotate_order ''next'' xs = (if xs = [] then [] else last xs # butlast xs)"
  by (simp add: rotate_order_def pop_def)

lemma rotate_prev_eq: "rotate_order ''prev'' xs = (if xs = [] then [] else tl xs @ [hd xs])"
  by (cases xs) (simp_all add: rotate_order_def shift_def)

lemma rotate_order_length: "length (rotate_order d xs) = length xs"
  by (cases xs) (auto simp: rotate_order_def shift_def pop_def)

lemma rotate_prev_rotate1: "rotate_order ''prev'' xs = rotate1 xs"
  by (cases xs) (simp_all add: rotate_prev_eq)

lemma rotate_next_rotate: "rotate_order ''next'' xs = List.rotate (length xs - 1) xs"
proof (cases "xs = []")
  case True
  then show ?thesis by (simp add: rotate_next_eq)
next
  case False
  then have "length xs - 1 < length xs" by (cases xs) simp_all
  then have "List.rotate (length xs - 1) xs = drop (length xs - 1) xs @ take (length xs - 1) xs"
    by (simp add: rotate_drop_take)
  also have "drop (length xs - 1) xs = [last xs]"
    using False by (metis append_butlast_last_id append_eq_conv_conj length_butlast)
  also have "take (length xs - 1) xs = butlast xs" by (simp add: butlast_conv_take)
  finally show ?thesis using False by (simp add: rotate_next_eq)
qed

text \<open>
  Claim C7.  For every order, \<open>rotate('next')\<close> moves the last element to the front and
  \<open>rotate('prev')\<close> moves the first element to the end.  Both keep the length and are cyclic
  rotations of the list (by all but one place, and by one place), each undoes the other, and
  the order of the carousel after \<open>rotate\<close> is the rotated order.
\<close>

theorem rotate_order_cyclic:
  "rotate_order ''next'' xs = (if xs = [] then [] else last xs # butlast xs)
   \<and> rotate_order ''prev'' xs = (if xs = [] then [] else tl xs @ [hd xs])
   \<and> length (rotate_order d xs) = length xs
   \<and> rotate_order ''next'' xs = List.rotate (length xs - 1) xs
   \<and> rotate_order ''prev'' xs = List.rotate 1 xs
   \<and> rotate_order ''prev'' (rotate_order ''next'' xs) = xs
   \<and> rotate_order ''next'' (rotate_order ''prev'' xs) = xs
   \<and> order (rotate_carousel d s) = rotate_order d (order s)
   \<and> order (rotate_carousel ''prev'' (rotate_carousel ''next'' s)) = order s
   \<and> order (rotate_carousel ''next'' (rotate_carousel ''prev'' s)) = order s"
proof -
  have pn: "rotate_order ''prev'' (rotate_order ''next'' ys) = ys" for ys
    by (simp add: rotate_next_eq rotate_prev_eq)
  have np: "rotate_order ''next'' (rotate_order ''prev'' ys) = ys" for ys
    by (cases ys) (simp_all add: rotate_next_eq rotate_prev_eq)
  have oc: "order (rotate_carousel e t) = rotate_order e (order t)" for e t
    by (simp add: rotate_carousel_def positionItems_frame)
  show ?thesis
  proof (intro conjI)
    show "rotate_order ''next'' xs = (if xs = [] then [] else last xs # butlast xs)"
      by (rule rotate_next_eq)
    show "rotate_order ''prev'' xs = (if xs = [] then [] else tl xs @ [hd xs])"
      by (rule rotate_prev_eq)
    show "length (rotate_order d xs) = length xs"
      by (rule rotate_order_length)
    show "rotate_order ''next'' xs = List.rotate (length xs - 1) xs"
      by (rule rotate_next_rotate)
    show "rotate_order ''prev'' xs = List.rotate 1 xs"
      by (simp add: rotate_prev_rotate1)
    show "rotate_order ''prev'' (rotate_order ''next'' xs) = xs"
      by (rule pn)
    show "rotate_order ''next'' (rotate_order ''prev'' xs) = xs"
      by (rule np)
    show "order (rotate_carousel d s) = rotate_order d (order s)"
      by (rule oc)
    show "order (rotate_carousel ''prev'' (rotate_carousel ''next'' s)) = order s"
      by (simp only: oc pn)
    show "order (rotate_carousel ''next'' (rotate_carousel ''prev'' s)) = order s"
      by (simp only: oc np)
  qed
qed

lemma clone_pass_length:
  "length (clone_pass bs items) =
     (if 10 \<le> length items then length items else min 10 (length items + length bs))"
  by (induction bs arbitrary: items) auto

lemma clone_pass_fresh: "fresh_clones items \<Longrightarrow> fresh_clones (clone_pass bs items)"
proof (induction bs arbitrary: items)
  case Nil
  then show ?case by simp
next
  case (Cons b bs)
  show ?case
  proof (cases "length items < 10")
    case False
    with Cons.prems show ?thesis by simp
  next
    case True
    have "fresh_clones (items @ [Clone b (length items)])"
      using Cons.prems unfolding fresh_clones_def list_all_iff
      by (auto simp: less_Suc_eq split: handle.splits)
    from Cons.IH [OF this] True show ?thesis by simp
  qed
qed

lemma originals_fresh: "fresh_clones (map Orig [0..<n])"
  by (auto simp: fresh_clones_def list_all_iff distinct_map inj_on_def)

lemma pad_loop_returns:
  assumes "baseItems \<noteq> []"
  shows "\<exists>r. pad_loop baseItems items = Some r \<and> length r = max 10 (length items)
           \<and> (fresh_clones items \<longrightarrow> fresh_clones r)"
proof (induction "10 - length items" arbitrary: items rule: less_induct)
  case less
  show ?case
  proof (cases "length items < 10")
    case False
    then show ?thesis by (subst pad_loop.simps) (simp add: max_def)
  next
    case True
    let ?items' = "clone_pass baseItems items"
    from assms have "0 < length baseItems" by simp
    with True have len: "length items < length ?items'" "length ?items' \<le> 10"
      by (simp_all add: clone_pass_length)
    then have "10 - length ?items' < 10 - length items" using True by simp
    from less [OF this] len obtain r where
      "pad_loop baseItems ?items' = Some r" "length r = 10"
      "fresh_clones ?items' \<longrightarrow> fresh_clones r"
      by (auto simp: max_def)
    with True show ?thesis
      by (subst pad_loop.simps) (simp add: max_def clone_pass_fresh)
  qed
qed

lemma pad_loop_three:
  "pad_loop (map Orig [0..<3]) (map Orig [0..<3]) =
     Some [Orig 0, Orig 1, Orig 2,
           Clone (Orig 0) 3, Clone (Orig 1) 4, Clone (Orig 2) 5,
           Clone (Orig 0) 6, Clone (Orig 1) 7, Clone (Orig 2) 8,
           Clone (Orig 0) 9]"
  by (simp add: pad_loop.simps upt_conv_Cons)

lemma startAutoRotate_frame:
  "order (startAutoRotate s) = order s"
  "totalImages (startAutoRotate s) = totalImages s"
  "loadedImages (startAutoRotate s) = loadedImages s"
  "item_transform (startAutoRotate s) = item_transform s"
  "auto_advancing (startAutoRotate s)"
  by (simp_all add: startAutoRotate_def Let_def auto_advancing_def)


lemma onImageLoad_frame:
  "order (onImageLoad s) = order s"
  "totalImages (onImageLoad s) = totalImages s"
  "loadedImages (onImageLoad s) = loadedImages s + 1"
  by (simp_all add: onImageLoad_def Let_def startAutoRotate_frame positionItems_frame)


lemma count_complete_frame:
  "order (count_complete imgs s) = order s"
  "totalImages (count_complete imgs s) = totalImages s"
  "loadedImages (count_complete imgs s) = loadedImages s + length (filter (\<lambda>b. b) imgs)"
  by (induction imgs arbitrary: s; simp add: onImageLoad_frame)+




lemma start_carousel_alt:
  "start_carousel c items =
     positionItems (if circle_images c = [] then startAutoRotate (positionItems (new_carousel c items))
                    else count_complete (circle_images c) (new_carousel c items))"
  by (simp add: start_carousel_def new_carousel_def Let_def)

lemma blank_simps:
  "order (new_carousel c items) = items"
  "totalImages (new_carousel c items) = length (circle_images c)"
  "loadedImages (new_carousel c items) = 0"
  "\<not> auto_advancing (new_carousel c items)"
  by (simp_all add: new_carousel_def auto_advancing_def)

lemma start_carousel_order: "order (start_carousel c items) = items"
  by (simp add: start_carousel_alt positionItems_frame startAutoRotate_frame
      count_complete_frame blank_simps)








lemma init_running:
  assumes "wrapper_circle w = Some c" and "wrapper_prevBtn w" and "wrapper_nextBtn w"
    and "0 < circle_items c"
  shows "\<exists>items. pad_loop (map Orig [0..<circle_items c]) (map Orig [0..<circle_items c]) = Some items
      \<and> length items = max 10 (circle_items c) \<and> distinct items
      \<and> initCircularTestimonials (Some w) = Some (Running (start_carousel c items))"
proof -
  from assms(4) have ne: "map Orig [0..<circle_items c] \<noteq> []" by simp
  from pad_loop_returns [OF ne, of "map Orig [0..<circle_items c]"] obtain items where
    r: "pad_loop (map Orig [0..<circle_items c]) (map Orig [0..<circle_items c]) = Some items"
    and l: "length items = max 10 (circle_items c)"
    and f: "fresh_clones items"
    using originals_fresh by auto
  have "initCircularTestimonials (Some w) = Some (Running (start_carousel c items))"
    using assms r by (simp add: initCircularTestimonials_def)
  with r l f show ?thesis unfolding fresh_clones_def by blast
qed

lemma init_cases:
  "initCircularTestimonials doc = Some Disabled \<and> carousel_anchor_missing doc
   \<or> (\<exists>w c items. doc = Some w \<and> wrapper_circle w = Some c \<and> wrapper_prevBtn w
         \<and> wrapper_nextBtn w \<and> 0 < circle_items c \<and> distinct items
         \<and> length items = max 10 (circle_items c)
         \<and> initCircularTestimonials doc = Some (Running (start_carousel c items)))"
proof (cases "carousel_anchor_missing doc")
  case True
  then show ?thesis
    by (auto simp: carousel_anchor_missing_def initCircularTestimonials_def split: option.splits)
next
  case False
  then obtain w c where "doc = Some w" "wrapper_circle w = Some c" "wrapper_prevBtn w"
    "wrapper_nextBtn w" "0 < circle_items c"
    by (auto simp: carousel_anchor_missing_def split: option.splits)
  with init_running [of w c] show ?thesis by blast
qed

lemma init_order_distinct:
  assumes "initCircularTestimonials doc = Some (Running s)"
  shows "distinct (order s)"
  using init_cases [of doc] assms by (auto simp: start_carousel_order)

lemma rotate_order_distinct: "distinct xs \<Longrightarrow> distinct (rotate_order d xs)"
proof (cases "d = ''next''")
  case True
  assume "distinct xs"
  then have "distinct (List.rotate (length xs - 1) xs)" by simp
  with True show ?thesis by (simp add: rotate_next_rotate)
next
  case False
  assume "distinct xs"
  then have "distinct (rotate1 xs)" by simp
  moreover have "rotate_order d xs = rotate_order ''prev'' xs"
    using False by (simp add: rotate_order_def)
  ultimately show ?thesis by (simp add: rotate_prev_rotate1)
qed

lemma init_disabled:
  "carousel_anchor_missing doc \<Longrightarrow> initCircularTestimonials doc = Some Disabled"
  by (auto simp: carousel_anchor_missing_def initCircularTestimonials_def
      split: option.splits)

text \<open>
  Claim C2, amended.  When every anchor is present and the circle has \<open>N > 0\<close> items, the
  initialisation returns and the order has length \<open>max(N, 10)\<close>: exactly 10 for every
  \<open>N \<le> 10\<close>, because the cloning stops in the middle of a pass as soon as ten items
  exist, and the \<open>N\<close> originals alone for \<open>N > 10\<close>.
\<close>

theorem padded_order_length:
  assumes "wrapper_circle w = Some c" and "wrapper_prevBtn w" and "wrapper_nextBtn w"
    and "0 < circle_items c"
  shows "\<exists>s. initCircularTestimonials (Some w) = Some (Running s)
     \<and> length (order s) = max 10 (circle_items c)
     \<and> (if circle_items c \<le> 10 then length (order s) = 10
         else order s = map Orig [0..<circle_items c])"
proof -
  from init_running [OF assms] obtain items where
    r: "pad_loop (map Orig [0..<circle_items c]) (map Orig [0..<circle_items c]) = Some items"
    and l: "length items = max 10 (circle_items c)"
    and i: "initCircularTestimonials (Some w) = Some (Running (start_carousel c items))"
    by blast
  have "items = map Orig [0..<circle_items c]" if "\<not> circle_items c \<le> 10"
    using r that by (subst (asm) pad_loop.simps) simp
  with l i show ?thesis
    by (auto simp: start_carousel_order)
qed

theorem padded_order_length_witness:
  "\<exists>s. initCircularTestimonials (Some (sample_wrapper 5 [])) = Some (Running s)
     \<and> length (order s) = 10"
  using padded_order_length [of "sample_wrapper 5 []" "sample_circle 5 []"]
  by (simp add: sample_wrapper_def sample_circle_def)

text \<open>
  Three items are padded to ten, not to twelve: the fourth pass clones the first item only.
\<close>

theorem padded_order_three:
  "\<exists>s. initCircularTestimonials (Some (sample_wrapper 3 [])) = Some (Running s)
     \<and> order s = [Orig 0, Orig 1, Orig 2,
                   Clone (Orig 0) 3, Clone (Orig 1) 4, Clone (Orig 2) 5,
                   Clone (Orig 0) 6, Clone (Orig 1) 7, Clone (Orig 2) 8,
                   Clone (Orig 0) 9]
     \<and> length (order s) = 10 \<and> length (order s) \<noteq> 12"
proof -
  have c: "circle_items (sample_circle 3 []) = 3" by (simp add: sample_circle_def)
  have "initCircularTestimonials (Some (sample_wrapper 3 [])) =
          Some (Running (start_carousel (sample_circle 3 [])
             [Orig 0, Orig 1, Orig 2,
                   Clone (Orig 0) 3, Clone (Orig 1) 4, Clone (Orig 2) 5,
                   Clone (Orig 0) 6, Clone (Orig 1) 7, Clone (Orig 2) 8,
                   Clone (Orig 0) 9]))"
    using pad_loop_three
    by (simp add: initCircularTestimonials_def sample_wrapper_def c)
  then show ?thesis by (simp add: start_carousel_order)
qed





section \<open>Properties of the video-testimonial slider\<close>

subsection \<open>Pagination\<close>

lemma js_remainder_normalised:
  fixes a n :: int
  assumes "0 < n"
  shows "(let r = a smod n in if r < 0 then r + n else r) = a mod n"
proof (cases "0 \<le> a")
  case True
  then have "a smod n = a mod n"
    using assms by (cases "a = 0") (simp_all add: signed_modulo_int_def sgn_if)
  moreover have "0 \<le> a mod n" using assms by simp
  ultimately show ?thesis by (simp add: Let_def)
next
  case False
  then have neg: "a < 0" by simp
  then have sm: "a smod n = - ((- a) mod n)"
    using assms by (simp add: signed_modulo_int_def sgn_if)
  show ?thesis
  proof (cases "n dvd a")
    case True
    then have "(- a) mod n = 0" "a mod n = 0" by simp_all
    with sm show ?thesis by (simp add: Let_def)
  next
    case False
    then have nz: "a mod n \<noteq> 0" by (simp add: dvd_eq_mod_eq_0)
    have "(- a) mod n = n - a mod n"
      using nz by (simp add: zmod_zminus1_eq_if)
    moreover have "0 \<le> a mod n" "a mod n < n"
      using assms by simp_all
    ultimately show ?thesis using sm nz by (simp add: Let_def)
  qed
qed

lemma getRealIndex_mod:
  "0 < totalSlides s \<Longrightarrow> getRealIndex i s = Some ((i - totalSlides s) mod totalSlides s)"
  using js_remainder_normalised [of "totalSlides s" "i - totalSlides s"]
  by (simp add: getRealIndex_def Let_def)

lemma append_dots_replicate:
  "append_dots i n dots = dots @ replicate (nat (n - i)) False"
proof (induction i n dots rule: append_dots.induct)
  case (1 i n dots)
  show ?case
  proof (cases "i < n")
    case True
    then have "nat (n - i) = Suc (nat (n - (i + 1)))" by simp
    with True "1" show ?thesis
      by (subst append_dots.simps) (simp add: replicate_app_Cons_same del: append_dots.simps)
  next
    case False
    then show ?thesis by (subst append_dots.simps) simp
  qed
qed

lemma updatePagination_dots:
  assumes "pagination s = Some dots" and "0 < totalSlides s"
  shows "pagination (updatePagination s) =
           Some (map (\<lambda>i. int i = (current s - totalSlides s) mod totalSlides s) [0..<length dots])"
  using assms by (simp add: updatePagination_def Let_def getRealIndex_mod)

lemma updatePagination_frame:
  "track (updatePagination s) = track s"
  "track_transition (updatePagination s) = track_transition s"
  "track_transform (updatePagination s) = track_transform s"
  "track_cursor (updatePagination s) = track_cursor s"
  "cards (updatePagination s) = cards s"
  "totalSlides (updatePagination s) = totalSlides s"
  "current (updatePagination s) = current s"
  "timeouts (updatePagination s) = timeouts s"
  "isDragging (updatePagination s) = isDragging s"
  "currentTranslate (updatePagination s) = currentTranslate s"
  "prevTranslate (updatePagination s) = prevTranslate s"
  "isRTL (updatePagination s) = isRTL s"
  "innerWidth (updatePagination s) = innerWidth s"
  "autoplayTimer (updatePagination s) = autoplayTimer s"
  "originalCards (updatePagination s) = originalCards s"
  "slider_el (updatePagination s) = slider_el s"
  "resize_listeners (updatePagination s) = resize_listeners s"
  "(pagination (updatePagination s) = None) = (pagination s = None)"
  by (cases "pagination s"; simp add: updatePagination_def Let_def)+

text \<open>
  Claim C4.  With \<open>N > 0\<close> original cards and a pagination element, the active dot of a
  cursor value \<open>cur\<close> is \<open>(cur - N) mod N\<close>, a number from 0 to \<open>N - 1\<close>, for every integer
  \<open>cur\<close>: the cursor \<open>N + k\<close> with \<open>0 \<le> k < N\<close> activates dot \<open>k\<close>, and the cursor \<open>N - 1\<close>
  activates dot \<open>N - 1\<close>.  \<open>createPagination\<close> makes exactly \<open>N\<close> dots, one for each original
  card, and marks the dot of the cursor and no other; so does \<open>updatePagination\<close> after the
  cursor has changed.
\<close>

theorem pagination_mapping:
  assumes "0 < totalSlides s" and "pagination s = Some dots"
  shows "getRealIndex cur s = Some ((cur - totalSlides s) mod totalSlides s)
     \<and> (0 \<le> k \<and> k < totalSlides s \<longrightarrow> getRealIndex (totalSlides s + k) s = Some k)
     \<and> getRealIndex (totalSlides s - 1) s = Some (totalSlides s - 1)
     \<and> pagination (createPagination s) =
         Some (map (\<lambda>i. int i = (current s - totalSlides s) mod totalSlides s)
                 [0..<nat (totalSlides s)])
     \<and> pagination (updatePagination ((createPagination s)\<lparr>current := cur\<rparr>)) =
         Some (map (\<lambda>i. int i = (cur - totalSlides s) mod totalSlides s)
                 [0..<nat (totalSlides s)])"
proof -
  let ?N = "totalSlides s"
  have a: "getRealIndex cur s = Some ((cur - ?N) mod ?N)"
    by (rule getRealIndex_mod [OF assms(1)])
  have b: "0 \<le> k \<and> k < ?N \<longrightarrow> getRealIndex (?N + k) s = Some k"
    by (simp add: getRealIndex_mod [OF assms(1)])
  have "(?N - 1 - ?N) mod ?N = ?N - 1"
    using assms(1) by (simp add: zmod_minus1)
  then have c: "getRealIndex (?N - 1) s = Some (?N - 1)"
    by (simp add: getRealIndex_mod [OF assms(1)])
  let ?t = "s\<lparr>pagination := Some (append_dots 0 ?N [])\<rparr>"
  have t: "pagination ?t = Some (replicate (nat ?N) False)" "totalSlides ?t = ?N"
    "current ?t = current s"
    by (simp_all add: append_dots_replicate)
  have cp: "createPagination s = updatePagination ?t"
    using assms(2) by (simp add: createPagination_def)
  have d: "pagination (createPagination s) =
         Some (map (\<lambda>i. int i = (current s - ?N) mod ?N) [0..<nat ?N])"
    using updatePagination_dots [OF t(1)] assms(1) by (simp add: cp t)
  let ?u = "(createPagination s)\<lparr>current := cur\<rparr>"
  have u: "pagination ?u = Some (map (\<lambda>i. int i = (current s - ?N) mod ?N) [0..<nat ?N])"
    "totalSlides ?u = ?N" "current ?u = cur"
    using d by (simp_all add: cp updatePagination_frame)
  have e: "pagination (updatePagination ?u) =
         Some (map (\<lambda>i. int i = (cur - ?N) mod ?N) [0..<nat ?N])"
    using updatePagination_dots [OF u(1)] assms(1) by (simp add: u)
  from a b c d e show ?thesis by blast
qed

theorem pagination_mapping_witness:
  "getRealIndex 4 (initial_slider False 1280\<lparr>totalSlides := 3, pagination := Some [], current := 5\<rparr>) = Some 1
   \<and> getRealIndex 2 (initial_slider False 1280\<lparr>totalSlides := 3, pagination := Some [], current := 5\<rparr>) = Some 2
   \<and> pagination (createPagination (initial_slider False 1280\<lparr>totalSlides := 3, pagination := Some [], current := 5\<rparr>))
       = Some [False, False, True]"
  using pagination_mapping [of "initial_slider False 1280\<lparr>totalSlides := 3, pagination := Some [], current := 5\<rparr>" "[]" 4 1]
  by (simp add: initial_slider_def upt_conv_Cons)

subsection \<open>The track\<close>

lemma update_moves:
  assumes "cards s = Some cs" and "cs \<noteq> []" and "track s \<noteq> None"
  shows "\<exists>s'. update animate s = Inr s'
     \<and> track_transform s' =
         Some (real_of_int (if isRTL s then offset_at s (current s) else - offset_at s (current s)))
     \<and> track_transition s' = animate
     \<and> track s' = track s \<and> track_cursor s' = track_cursor s \<and> cards s' = cards s
     \<and> totalSlides s' = totalSlides s \<and> current s' = current s \<and> timeouts s' = timeouts s
     \<and> isDragging s' = isDragging s \<and> currentTranslate s' = currentTranslate s
     \<and> prevTranslate s' = prevTranslate s \<and> isRTL s' = isRTL s
     \<and> innerWidth s' = innerWidth s \<and> autoplayTimer s' = autoplayTimer s"
proof -
  from assms obtain c cs' ch where c: "cards s = Some (c # cs')" and t: "track s = Some ch"
    by (cases cs) auto
  show ?thesis
    by (simp add: update_def c t Let_def updatePagination_frame offset_at_def)
qed

lemma offset_at_cong:
  "cards s' = cards s \<Longrightarrow> innerWidth s' = innerWidth s \<Longrightarrow> offset_at s' = offset_at s"
  by (rule ext) (simp add: offset_at_def split: option.splits list.splits)

lemma on_track_cong:
  "cards s' = cards s \<Longrightarrow> totalSlides s' = totalSlides s \<Longrightarrow> track s' = track s
   \<Longrightarrow> timeouts s' = timeouts s \<Longrightarrow> on_track N s' = on_track N s"
  by (simp add: on_track_def)

lemma on_track_cards:
  "on_track N s \<Longrightarrow> \<exists>cs. cards s = Some cs \<and> cs \<noteq> [] \<and> int (length cs) = 3 * N"
  by (auto simp: on_track_def split: option.splits)

lemma update_eq:
  assumes "cards s = Some cs" and "cs \<noteq> []" and "track s \<noteq> None"
  shows "update animate s =
     Inr (updatePagination
           (s\<lparr>track_transition := animate,
              track_transform :=
                Some (real_of_int (if isRTL s then offset_at s (current s)
                                   else - offset_at s (current s)))\<rparr>))"
proof -
  from assms obtain c cs' ch where c: "cards s = Some (c # cs')" and t: "track s = Some ch"
    by (cases cs) auto
  show ?thesis
    by (simp add: update_def c t Let_def offset_at_def)
qed

lemma moved_to_frame:
  "current (moved_to a m s) = m"
  "track_transition (moved_to a m s) = a"
  "track_transform (moved_to a m s) =
     Some (real_of_int (if isRTL s then offset_at s m else - offset_at s m))"
  "track (moved_to a m s) = track s"
  "track_cursor (moved_to a m s) = track_cursor s"
  "cards (moved_to a m s) = cards s"
  "totalSlides (moved_to a m s) = totalSlides s"
  "timeouts (moved_to a m s) = timeouts s"
  "isDragging (moved_to a m s) = isDragging s"
  "currentTranslate (moved_to a m s) = currentTranslate s"
  "prevTranslate (moved_to a m s) = prevTranslate s"
  "isRTL (moved_to a m s) = isRTL s"
  "innerWidth (moved_to a m s) = innerWidth s"
  "autoplayTimer (moved_to a m s) = autoplayTimer s"
  by (simp_all add: moved_to_def updatePagination_frame)

lemma moved_to_offset: "offset_at (moved_to a m s) = offset_at s"
  by (rule offset_at_cong) (simp_all add: moved_to_frame)

lemma moved_to_on_track: "on_track N (moved_to a m s) = on_track N s"
  by (rule on_track_cong) (simp_all add: moved_to_frame)

lemma update_current:
  assumes "cards s = Some cs" and "cs \<noteq> []" and "track s \<noteq> None"
  shows "update animate (s\<lparr>current := m\<rparr>) = Inr (moved_to animate m s)"
proof -
  have o: "offset_at (s\<lparr>current := m\<rparr>) = offset_at s"
    by (rule offset_at_cong) simp_all
  have "update animate (s\<lparr>current := m\<rparr>) =
     Inr (updatePagination
           (s\<lparr>current := m\<rparr>\<lparr>track_transition := animate,
              track_transform :=
                Some (real_of_int (if isRTL (s\<lparr>current := m\<rparr>) then offset_at (s\<lparr>current := m\<rparr>) (current (s\<lparr>current := m\<rparr>))
                                   else - offset_at (s\<lparr>current := m\<rparr>) (current (s\<lparr>current := m\<rparr>))))\<rparr>))"
    using assms by (intro update_eq [of _ cs]) simp_all
  then show ?thesis by (simp add: o moved_to_def)
qed

lemma no_timeouts: "timeouts s = [] \<Longrightarrow> s\<lparr>timeouts := []\<rparr> = s"
  by (cases s) simp

lemma on_track_facts:
  assumes "on_track N s"
  shows "0 < N" "totalSlides s = N" "track s \<noteq> None" "timeouts s = []"
    "\<exists>cs. cards s = Some cs \<and> cs \<noteq> [] \<and> int (length cs) = 3 * N"
  using assms by (auto simp: on_track_def split: option.splits)

lemma checkLoop_eq:
  assumes "on_track N s"
  shows "checkLoop s =
     Inr (if 2 * N \<le> current s then s\<lparr>timeouts := [(config_transition, RehomeStart)]\<rparr>
          else if current s < N then s\<lparr>timeouts := [(config_transition, RehomeEnd (2 * N - 1))]\<rparr>
          else s)"
proof -
  from on_track_facts [OF assms] obtain cs where
    cs: "cards s = Some cs" "int (length cs) = 3 * N" and N: "totalSlides s = N" "timeouts s = []"
    by blast
  show ?thesis by (simp add: checkLoop_def cs N Let_def)
qed

lemma fire_rehome:
  assumes "on_track N s"
  shows "settle doc (s\<lparr>timeouts := [(d, RehomeStart)]\<rparr>) = Inr (moved_to False N s)"
    and "settle doc (s\<lparr>timeouts := [(d, RehomeEnd m)]\<rparr>) = Inr (moved_to False m s)"
proof -
  from on_track_facts [OF assms] obtain cs where
    cs: "cards s = Some cs" "cs \<noteq> []" and N: "totalSlides s = N" "timeouts s = []" "track s \<noteq> None"
    by blast
  have u: "update False (s\<lparr>current := k\<rparr>) = Inr (moved_to False k s)" for k
    by (rule update_current [OF cs N(3)])
  have t: "s\<lparr>timeouts := [(d, cb)], timeouts := []\<rparr> = s" for cb
    using no_timeouts [OF N(2)] by simp
  show "settle doc (s\<lparr>timeouts := [(d, RehomeStart)]\<rparr>) = Inr (moved_to False N s)"
    by (simp add: settle_def run_callback_def bind_err_def t N(1) u)
  show "settle doc (s\<lparr>timeouts := [(d, RehomeEnd m)]\<rparr>) = Inr (moved_to False m s)"
    by (simp add: settle_def run_callback_def bind_err_def t u)
qed

lemma settle_idle: "timeouts s = [] \<Longrightarrow> settle doc s = Inr s"
  by (simp add: settle_def no_timeouts)

lemma checkLoop_settle:
  assumes "on_track N s"
  shows "bind_err (checkLoop s) (settle doc) =
     Inr (if 2 * N \<le> current s then moved_to False N s
          else if current s < N then moved_to False (2 * N - 1) s
          else s)"
  using fire_rehome [OF assms, of doc config_transition] settle_idle [of s doc]
    on_track_facts(4) [OF assms]
  by (simp add: checkLoop_eq [OF assms] bind_err_def)

lemma step_eq:
  assumes "on_track N s"
  shows "next_settled doc s =
     Inr (if 2 * N \<le> current s + 1 then moved_to False N (moved_to True (current s + 1) s)
          else if current s + 1 < N then moved_to False (2 * N - 1) (moved_to True (current s + 1) s)
          else moved_to True (current s + 1) s)"
    and "prev_settled doc s =
     Inr (if 2 * N \<le> current s - 1 then moved_to False N (moved_to True (current s - 1) s)
          else if current s - 1 < N then moved_to False (2 * N - 1) (moved_to True (current s - 1) s)
          else moved_to True (current s - 1) s)"
proof -
  from on_track_facts [OF assms] obtain cs where
    cs: "cards s = Some cs" "cs \<noteq> []" and N: "track s \<noteq> None"
    by blast
  have u: "update True (s\<lparr>current := k\<rparr>) = Inr (moved_to True k s)" for k
    by (rule update_current [OF cs N])
  have o: "on_track N (moved_to True k s)" for k
    using assms by (simp add: moved_to_on_track)
  show "next_settled doc s =
     Inr (if 2 * N \<le> current s + 1 then moved_to False N (moved_to True (current s + 1) s)
          else if current s + 1 < N then moved_to False (2 * N - 1) (moved_to True (current s + 1) s)
          else moved_to True (current s + 1) s)"
    using checkLoop_settle [OF o, of "current s + 1" doc]
    by (simp add: next_settled_def next_def u bind_err_def moved_to_frame split: sum.splits)
  show "prev_settled doc s =
     Inr (if 2 * N \<le> current s - 1 then moved_to False N (moved_to True (current s - 1) s)
          else if current s - 1 < N then moved_to False (2 * N - 1) (moved_to True (current s - 1) s)
          else moved_to True (current s - 1) s)"
    using checkLoop_settle [OF o, of "current s - 1" doc]
    by (simp add: prev_settled_def prev_def u bind_err_def moved_to_frame split: sum.splits)
qed

lemma step_homed:
  assumes "on_track N s" and "N \<le> current s" and "current s < 2 * N"
  shows "\<exists>s'. next_settled doc s = Inr s' \<and> on_track N s'
     \<and> current s' = N + (current s + 1 - N) mod N
     \<and> offset_at s' = offset_at s \<and> isRTL s' = isRTL s
     \<and> track_transform s' =
          Some (real_of_int (if isRTL s then offset_at s (current s') else - offset_at s (current s')))"
proof (cases "2 * N \<le> current s + 1")
  case True
  with assms have c: "current s + 1 = 2 * N" by simp
  then have "(current s + 1 - N) mod N = 0" by simp
  with True assms(1) show ?thesis
    by (simp add: step_eq [OF assms(1)] moved_to_frame moved_to_offset moved_to_on_track)
next
  case False
  with assms have "0 \<le> current s + 1 - N" "current s + 1 - N < N" by simp_all
  then have e: "(current s + 1 - N) mod N = current s + 1 - N"
    by (rule mod_pos_pos_trivial)
  have "(current s + 1) mod N = (current s + 1 - N) mod N" by simp
  with e have "(current s + 1) mod N = current s + 1 - N" by (simp only:)
  then show ?thesis using False assms
    by (simp add: step_eq [OF assms(1)] moved_to_frame moved_to_offset moved_to_on_track)
qed

lemma repeat_next_homed:
  assumes "on_track N s" and "0 \<le> j" and "j < N" and "current s = N + j"
  shows "\<exists>s'. repeat_next k doc s = Inr s' \<and> on_track N s'
     \<and> current s' = N + (j + int k) mod N
     \<and> offset_at s' = offset_at s \<and> isRTL s' = isRTL s
     \<and> (0 < k \<longrightarrow> track_transform s' =
          Some (real_of_int (if isRTL s then offset_at s (current s') else - offset_at s (current s'))))"
  using assms
proof (induction k arbitrary: s j)
  case 0
  then show ?case by simp
next
  case (Suc k)
  from Suc.prems have r: "N \<le> current s" "current s < 2 * N" by simp_all
  from step_homed [OF Suc.prems(1) r, of doc] obtain s1 where
    s1: "next_settled doc s = Inr s1" "on_track N s1" "current s1 = N + (current s + 1 - N) mod N"
      "offset_at s1 = offset_at s" "isRTL s1 = isRTL s"
      "track_transform s1 =
          Some (real_of_int (if isRTL s then offset_at s (current s1) else - offset_at s (current s1)))"
    by blast
  let ?j = "(j + 1) mod N"
  from Suc.prems have N: "0 < N" by (simp add: on_track_def)
  have j1: "0 \<le> ?j" "?j < N" using N by simp_all
  have c1: "current s1 = N + ?j" using s1(3) Suc.prems(4) by simp
  from Suc.IH [OF s1(2) j1 c1] obtain s' where
    s': "repeat_next k doc s1 = Inr s'" "on_track N s'" "current s' = N + (?j + int k) mod N"
      "offset_at s' = offset_at s1" "isRTL s' = isRTL s1"
      "0 < k \<longrightarrow> track_transform s' =
          Some (real_of_int (if isRTL s1 then offset_at s1 (current s') else - offset_at s1 (current s')))"
    by blast
  have m: "(?j + int k) mod N = (j + int (Suc k)) mod N"
    by (simp add: mod_simps algebra_simps)
  have tr: "track_transform s' =
          Some (real_of_int (if isRTL s then offset_at s (current s') else - offset_at s (current s')))"
  proof (cases "0 < k")
    case True
    with s'(6) s1 show ?thesis by simp
  next
    case False
    then have "s' = s1" using s'(1) by simp
    with s1(6) show ?thesis by simp
  qed
  have "repeat_next (Suc k) doc s = Inr s'"
    by (simp add: s1(1) s'(1) bind_err_def)
  with s'(2,3) m s'(4) s1(4) s'(5) s1(5) tr show ?case by simp
qed

lemma foldl_append_length:
  "length (foldl (\<lambda>t c. t @ [f c]) t xs) = length t + length xs"
  by (induction xs arbitrary: t) simp_all

lemma foldl_cons_length:
  "length (foldl (\<lambda>t c. f c # t) t xs) = length t + length xs"
  by (induction xs arbitrary: t) simp_all

lemma foldl_cons_map: "foldl (\<lambda>t c. f c # t) t xs = rev (map f xs) @ t"
  by (induction xs arbitrary: t) simp_all

lemma createPagination_frame:
  "track (createPagination s) = track s"
  "cards (createPagination s) = cards s"
  "totalSlides (createPagination s) = totalSlides s"
  "current (createPagination s) = current s"
  "timeouts (createPagination s) = timeouts s"
  "isRTL (createPagination s) = isRTL s"
  "innerWidth (createPagination s) = innerWidth s"
  "currentTranslate (createPagination s) = currentTranslate s"
  "isDragging (createPagination s) = isDragging s"
  by (cases "pagination s"; simp add: createPagination_def updatePagination_frame)+

lemma initAutoplay_frame:
  "track (initAutoplay s) = track s"
  "cards (initAutoplay s) = cards s"
  "totalSlides (initAutoplay s) = totalSlides s"
  "current (initAutoplay s) = current s"
  "timeouts (initAutoplay s) = timeouts s"
  "isRTL (initAutoplay s) = isRTL s"
  "innerWidth (initAutoplay s) = innerWidth s"
  "track_transform (initAutoplay s) = track_transform s"
  "currentTranslate (initAutoplay s) = currentTranslate s"
  "isDragging (initAutoplay s) = isDragging s"
  by (simp_all add: initAutoplay_def arm_autoplay_def Let_def)

lemma init_setup_on_track:
  assumes "track s = Some ch" and "\<not> list_ex cloned ch" and "originalCards s = ch" and "ch \<noteq> []"
    and "totalSlides s = int (length ch)" and "timeouts s = []"
  shows "\<exists>s'. init_setup s = Inr s' \<and> on_track (int (length ch)) s'
     \<and> current s' = int (length ch) \<and> isRTL s' = isRTL s \<and> innerWidth s' = innerWidth s
     \<and> track_transform s' =
          Some (real_of_int (if isRTL s then offset_at s' (int (length ch))
                             else - offset_at s' (int (length ch))))
     \<and> (\<exists>c cs. cards s' = Some (c # cs) \<and> card_offsetWidth c = card_offsetWidth (hd ch))
     \<and> currentTranslate s' = currentTranslate s \<and> isDragging s' = isDragging s"
proof -
  let ?N = "int (length ch)"
  let ?ins = "foldl (\<lambda>t c. clone_card c # t) (foldl (\<lambda>t c. t @ [clone_card c]) ch ch) (rev ch)"
  let ?s1 = "setPerView ((setPerView s)\<lparr>track := Some ?ins, cards := Some ?ins\<rparr>)"
  have len: "int (length ?ins) = 3 * ?N"
    by (simp add: foldl_append_length foldl_cons_length)
  have ne: "?ins \<noteq> []" using len assms(4) by auto
  have cl: "cloneCards (setPerView s) = Inr ?s1"
    using assms by (simp add: cloneCards_def setPerView_def Let_def)
  have s1: "cards ?s1 = Some ?ins" "track ?s1 = Some ?ins" "totalSlides ?s1 = ?N"
    "timeouts ?s1 = []" "isRTL ?s1 = isRTL s" "innerWidth ?s1 = innerWidth s"
    "currentTranslate ?s1 = currentTranslate s" "isDragging ?s1 = isDragging s"
    using assms by (simp_all add: setPerView_def Let_def)
  from assms(4) obtain c0 cs0 where ch: "ch = c0 # cs0" by (cases ch) auto
  have hd: "\<exists>c cs. ?ins = c # cs \<and> card_offsetWidth c = card_offsetWidth (hd ch)"
    by (simp add: foldl_cons_map ch clone_card_def)
  let ?s2 = "createPagination ?s1"
  have s2: "cards ?s2 = Some ?ins" "track ?s2 \<noteq> None" "totalSlides ?s2 = ?N"
    "timeouts ?s2 = []" "isRTL ?s2 = isRTL s" "innerWidth ?s2 = innerWidth s"
    "currentTranslate ?s2 = currentTranslate s" "isDragging ?s2 = isDragging s"
    by (simp_all only: createPagination_frame s1 option.distinct not_False_eq_True)
  have u: "update False (?s2\<lparr>current := ?N\<rparr>) = Inr (moved_to False ?N ?s2)"
    by (rule update_current [OF s2(1) ne s2(2)])
  let ?s3 = "initAutoplay (moved_to False ?N ?s2)"
  have run: "init_setup s = Inr ?s3"
    by (simp only: init_setup_def cl bind_err_def sum.case s1(3) u)
  have o: "offset_at ?s3 = offset_at ?s2"
    by (rule offset_at_cong) (simp_all add: initAutoplay_frame moved_to_frame)
  have "on_track ?N ?s3"
    using len ne assms(4) s2
    by (simp add: on_track_def initAutoplay_frame moved_to_frame)
  moreover have "current ?s3 = ?N" "isRTL ?s3 = isRTL s" "innerWidth ?s3 = innerWidth s"
    by (simp_all add: initAutoplay_frame moved_to_frame s2)
  moreover have "track_transform ?s3 =
          Some (real_of_int (if isRTL s then offset_at ?s3 ?N else - offset_at ?s3 ?N))"
    by (simp add: initAutoplay_frame moved_to_frame s2 o)
  moreover have "\<exists>c cs. cards ?s3 = Some (c # cs) \<and> card_offsetWidth c = card_offsetWidth (hd ch)"
    using hd by (simp add: initAutoplay_frame moved_to_frame s2)
  moreover have "currentTranslate ?s3 = currentTranslate s" "isDragging ?s3 = isDragging s"
    by (simp_all add: initAutoplay_frame moved_to_frame s2)
  ultimately show ?thesis using run by blast
qed

lemma started_on_track:
  assumes "doc_track doc = Some ch" and "ch \<noteq> []" and "\<not> list_ex cloned ch" and "doc_slider doc"
  shows "\<exists>s. started doc rtl w = Inr s \<and> on_track (int (length ch)) s
     \<and> current s = int (length ch) \<and> isRTL s = rtl \<and> innerWidth s = w
     \<and> track_transform s =
          Some (real_of_int (if rtl then offset_at s (int (length ch))
                             else - offset_at s (int (length ch))))
     \<and> (\<exists>c cs. cards s = Some (c # cs) \<and> card_offsetWidth c = card_offsetWidth (hd ch))
     \<and> currentTranslate s = 0 \<and> \<not> isDragging s"
proof -
  let ?i = "init doc (initial_slider rtl w)"
  have i: "?i = (initial_slider rtl w)\<lparr>track := Some ch, slider_el := True, originalCards := ch,
      pagination := doc_pagination doc, totalSlides := int (length ch),
      timeouts := [(100, InitSetup)], resize_listeners := 1\<rparr>"
    using assms by (simp add: init_def initial_slider_def Let_def)
  let ?t = "?i\<lparr>timeouts := []\<rparr>"
  have t: "track ?t = Some ch" "originalCards ?t = ch" "totalSlides ?t = int (length ch)"
    "timeouts ?t = []" "isRTL ?t = rtl" "innerWidth ?t = w" "currentTranslate ?t = 0"
    "\<not> isDragging ?t"
    unfolding i by (simp_all add: initial_slider_def)
  have st: "started doc rtl w = bind_err (init_setup ?t) Inr"
    unfolding started_def settle_def i
    by (simp add: run_callback_def bind_err_def split: sum.splits)
  from init_setup_on_track [OF t(1) assms(3) t(2) assms(2) t(3) t(4)] obtain s' where
    "init_setup ?t = Inr s'" "on_track (int (length ch)) s'" "current s' = int (length ch)"
    "isRTL s' = isRTL ?t" "innerWidth s' = innerWidth ?t"
    "track_transform s' =
          Some (real_of_int (if isRTL ?t then offset_at s' (int (length ch))
                             else - offset_at s' (int (length ch))))"
    "\<exists>c cs. cards s' = Some (c # cs) \<and> card_offsetWidth c = card_offsetWidth (hd ch)"
    "currentTranslate s' = currentTranslate ?t" "isDragging s' = isDragging ?t"
    by blast
  then show ?thesis by (simp add: st bind_err_def t)
qed

lemma offset_mod_period:
  fixes g N k :: int
  shows "(g * (N + k mod N)) mod (g * N) = (g * (N + k)) mod (g * N)"
proof -
  have "k = k mod N + N * (k div N)" by simp
  then have "g * (N + k) = g * (N + (k mod N + N * (k div N)))" by simp
  also have "\<dots> = g * (N + k mod N) + (g * N) * (k div N)"
    by (simp only: distrib_left mult.assoc add.assoc)
  finally show ?thesis by (simp only: mod_mult_self2)
qed

lemma offset_at_linear:
  assumes "on_track N s"
  shows "\<exists>g. \<forall>x. offset_at s x = g * x"
proof -
  from on_track_facts(5) [OF assms] obtain c cs where "cards s = Some (c # cs)"
    by (metis list.exhaust)
  then have "\<forall>x. offset_at s x = (card_offsetWidth c + gap_of (innerWidth s)) * x"
    by (simp add: offset_at_def)
  then show ?thesis by blast
qed

text \<open>
  Claim C1.  On a slider that is set up over \<open>N\<close> originals (a track of \<open>3 N\<close> cards) with
  the cursor at \<open>N\<close>, \<open>k\<close> times \<open>next()\<close>, each followed by the timer of its loop check,
  return a slider whose cursor is \<open>N + k mod N\<close>, so it lies in \<open>[N, 2 N)\<close>; the transform
  written last is the offset \<open>(cardWidth + gap) * current\<close> of that cursor, negated in
  left-to-right layout; and this offset is congruent, modulo the period
  \<open>(cardWidth + gap) * N\<close>, to the offset of the cursor \<open>N + k\<close> that no re-homing would have
  given.  The loop check with its timer resets a cursor \<open>c \<ge> 2 N\<close> to \<open>N\<close> and a cursor
  \<open>c < N\<close> to \<open>2 N - 1\<close>, and leaves any other cursor alone.  \<open>started_on_track\<close> shows that
  the initialisation sets the slider up so, with the cursor at \<open>N\<close>.
\<close>

theorem rehoming_invisible:
  assumes "on_track N s" and "current s = N"
  shows "\<exists>s'. repeat_next k doc s = Inr s'
     \<and> N \<le> current s' \<and> current s' < 2 * N \<and> current s' = N + int k mod N
     \<and> on_track N s'
     \<and> (0 < k \<longrightarrow> track_transform s' =
          Some (real_of_int (if isRTL s then offset_at s (current s')
                             else - offset_at s (current s'))))
     \<and> offset_at s (current s') mod offset_at s N = offset_at s (N + int k) mod offset_at s N
     \<and> (\<exists>t. bind_err (checkLoop (s\<lparr>current := c\<rparr>)) (settle doc) = Inr t
          \<and> current t = (if 2 * N \<le> c then N else if c < N then 2 * N - 1 else c))"
proof -
  from assms(1) have N: "0 < N" by (simp add: on_track_def)
  from repeat_next_homed [OF assms(1) _ N, of k doc] assms(2) obtain s' where
    s': "repeat_next k doc s = Inr s'" "on_track N s'" "current s' = N + int k mod N"
      "0 < k \<longrightarrow> track_transform s' =
          Some (real_of_int (if isRTL s then offset_at s (current s') else - offset_at s (current s')))"
    by auto
  have r: "N \<le> current s'" "current s' < 2 * N"
    using N by (simp_all add: s'(3))
  from offset_at_linear [OF assms(1)] obtain g where g: "\<And>x. offset_at s x = g * x" by blast
  have m: "offset_at s (current s') mod offset_at s N = offset_at s (N + int k) mod offset_at s N"
    by (simp only: g s'(3) offset_mod_period)
  have o: "on_track N (s\<lparr>current := c\<rparr>)"
    using assms(1) by (simp add: on_track_def)
  have cl: "\<exists>t. bind_err (checkLoop (s\<lparr>current := c\<rparr>)) (settle doc) = Inr t
          \<and> current t = (if 2 * N \<le> c then N else if c < N then 2 * N - 1 else c)"
    by (simp add: checkLoop_settle [OF o] moved_to_frame)
  from s' r m cl show ?thesis by blast
qed

theorem rehoming_invisible_witness:
  "\<exists>s s'. started (sample_document 3 280) False 1280 = Inr s
     \<and> on_track 3 s \<and> current s = 3
     \<and> repeat_next 3 (sample_document 3 280) s = Inr s'
     \<and> current s' = 3 \<and> on_track 3 s'"
proof -
  let ?doc = "sample_document 3 280"
  from started_on_track [of ?doc _ False 1280] obtain s where
    s: "started ?doc False 1280 = Inr s" "on_track 3 s" "current s = 3"
    by (auto simp: sample_document_def list_ex_iff)
  from rehoming_invisible [OF s(2) s(3), of 3 ?doc] obtain s' where
    "repeat_next 3 ?doc s = Inr s'" "current s' = 3" "on_track 3 s'"
    by auto
  with s show ?thesis by blast
qed

subsection \<open>Dragging\<close>

lemma resetAutoplay_frame:
  "current (resetAutoplay s) = current s"
  "isDragging (resetAutoplay s) = isDragging s"
  "track_transform (resetAutoplay s) = track_transform s"
  "track_transition (resetAutoplay s) = track_transition s"
  "timeouts (resetAutoplay s) = timeouts s"
  "autoplayTimer (resetAutoplay s) \<noteq> None"
  by (cases "autoplayTimer s";
      simp add: resetAutoplay_def stopAutoplay_def arm_autoplay_def config_autoplay_def Let_def)+

lemma checkLoop_current:
  assumes "on_track N s"
  shows "\<exists>s'. checkLoop s = Inr s' \<and> current s' = current s
     \<and> track_transform s' = track_transform s \<and> track_transition s' = track_transition s
     \<and> isDragging s' = isDragging s"
  by (simp add: checkLoop_eq [OF assms])

lemma step_unsettled:
  assumes "on_track N s"
  shows "\<exists>s'. next s = Inr s' \<and> current s' = current s + 1 \<and> track_transition s'
       \<and> isDragging s' = isDragging s
       \<and> track_transform s' =
            Some (real_of_int (if isRTL s then offset_at s (current s + 1)
                               else - offset_at s (current s + 1)))"
    and "\<exists>s'. prev s = Inr s' \<and> current s' = current s - 1 \<and> track_transition s'
       \<and> isDragging s' = isDragging s
       \<and> track_transform s' =
            Some (real_of_int (if isRTL s then offset_at s (current s - 1)
                               else - offset_at s (current s - 1)))"
proof -
  from on_track_facts [OF assms] obtain cs where
    cs: "cards s = Some cs" "cs \<noteq> []" and N: "track s \<noteq> None"
    by blast
  have u: "update True (s\<lparr>current := k\<rparr>) = Inr (moved_to True k s)" for k
    by (rule update_current [OF cs N])
  have o: "on_track N (moved_to True k s)" for k
    using assms by (simp add: moved_to_on_track)
  show "\<exists>s'. next s = Inr s' \<and> current s' = current s + 1 \<and> track_transition s'
       \<and> isDragging s' = isDragging s
       \<and> track_transform s' =
            Some (real_of_int (if isRTL s then offset_at s (current s + 1)
                               else - offset_at s (current s + 1)))"
    using checkLoop_current [OF o, of "current s + 1"]
    by (auto simp: next_def u bind_err_def moved_to_frame)
  show "\<exists>s'. prev s = Inr s' \<and> current s' = current s - 1 \<and> track_transition s'
       \<and> isDragging s' = isDragging s
       \<and> track_transform s' =
            Some (real_of_int (if isRTL s then offset_at s (current s - 1)
                               else - offset_at s (current s - 1)))"
    using checkLoop_current [OF o, of "current s - 1"]
    by (auto simp: prev_def u bind_err_def moved_to_frame)
qed

text \<open>
  What \<open>endDrag\<close> decides, from the two translations it compares.
\<close>

lemma endDrag_decides:
  assumes "on_track N s" and "isDragging s" and "cards s = Some (c # cs)"
  shows "\<exists>s'. endDrag s = Inr s' \<and> \<not> isDragging s' \<and> track_transition s'
     \<and> current s' =
         (if \<bar>currentTranslate s - prevTranslate s\<bar> > real_of_int (card_offsetWidth c) / 3
          then (if (currentTranslate s - prevTranslate s < 0) = isRTL s
                then current s - 1 else current s + 1)
          else current s)
     \<and> track_transform s' =
          Some (real_of_int (if isRTL s then offset_at s (current s')
                             else - offset_at s (current s')))"
proof -
  let ?s1 = "s\<lparr>isDragging := False, track_cursor := ''grab''\<rparr>"
  let ?moved = "currentTranslate s - prevTranslate s"
  from assms(1) obtain ch where tr: "track s = Some ch"
    by (auto simp: on_track_def)
  have o: "on_track N ?s1" using assms(1) by (simp add: on_track_def)
  have off: "offset_at ?s1 = offset_at s" by (rule offset_at_cong) simp_all
  have e: "endDrag s =
     bind_err (if \<bar>?moved\<bar> > real_of_int (card_offsetWidth c) / 3
               then (if ?moved < 0 then (if isRTL s then prev ?s1 else next ?s1)
                     else (if isRTL s then next ?s1 else prev ?s1))
               else update True ?s1)
       (\<lambda>s2. Inr (resetAutoplay s2))"
    using assms(2,3) tr by (simp add: endDrag_def Let_def)
  from step_unsettled [OF o] obtain sn sp where
    n: "next ?s1 = Inr sn" "current sn = current s + 1" "track_transition sn" "\<not> isDragging sn"
      "track_transform sn = Some (real_of_int (if isRTL s then offset_at s (current s + 1)
                               else - offset_at s (current s + 1)))"
    and p: "prev ?s1 = Inr sp" "current sp = current s - 1" "track_transition sp" "\<not> isDragging sp"
      "track_transform sp = Some (real_of_int (if isRTL s then offset_at s (current s - 1)
                               else - offset_at s (current s - 1)))"
    by (auto simp: off)
  have "update True ?s1 = Inr (moved_to True (current s) ?s1)"
    using update_current [of ?s1 "c # cs" True "current s"] assms(3) tr by simp
  then obtain su where
    u: "update True ?s1 = Inr su" "current su = current s" "track_transition su" "\<not> isDragging su"
      "track_transform su = Some (real_of_int (if isRTL s then offset_at s (current s)
                               else - offset_at s (current s)))"
    by (simp add: moved_to_frame off)
  show ?thesis
    unfolding e using n p u
    by (simp add: bind_err_def resetAutoplay_frame)
qed

lemma drag_through_last:
  assumes "isDragging s" and "track s \<noteq> None"
  shows "\<exists>s'. drag_through xs s = Inr s'
     \<and> currentTranslate s' = (if xs = [] then currentTranslate s
                               else prevTranslate s + (last xs - startX s))
     \<and> prevTranslate s' = prevTranslate s \<and> startX s' = startX s \<and> isDragging s'
     \<and> cards s' = cards s \<and> track s' = track s \<and> totalSlides s' = totalSlides s
     \<and> timeouts s' = timeouts s \<and> current s' = current s \<and> isRTL s' = isRTL s
     \<and> innerWidth s' = innerWidth s"
  using assms
proof (induction xs arbitrary: s)
  case Nil
  then show ?case by simp
next
  case (Cons x xs)
  from Cons.prems obtain ch where tr: "track s = Some ch" by auto
  let ?s1 = "s\<lparr>currentTranslate := prevTranslate s + (x - startX s),
               track_transform := Some (prevTranslate s + (x - startX s))\<rparr>"
  have d: "drag x s = Inr ?s1"
    using Cons.prems tr by (simp add: drag_def Let_def)
  have "isDragging ?s1" "track ?s1 \<noteq> None" using Cons.prems by simp_all
  from Cons.IH [OF this] obtain s' where
    "drag_through xs ?s1 = Inr s'"
    "currentTranslate s' = (if xs = [] then currentTranslate ?s1
                               else prevTranslate ?s1 + (last xs - startX ?s1))"
    "prevTranslate s' = prevTranslate ?s1" "startX s' = startX ?s1" "isDragging s'"
    "cards s' = cards ?s1" "track s' = track ?s1" "totalSlides s' = totalSlides ?s1"
    "timeouts s' = timeouts ?s1" "current s' = current ?s1" "isRTL s' = isRTL ?s1"
    "innerWidth s' = innerWidth ?s1"
    by blast
  then show ?case by (simp add: d bind_err_def)
qed

lemma stopAutoplay_frame:
  "cards (stopAutoplay s) = cards s" "track (stopAutoplay s) = track s"
  "totalSlides (stopAutoplay s) = totalSlides s" "timeouts (stopAutoplay s) = timeouts s"
  "current (stopAutoplay s) = current s" "isRTL (stopAutoplay s) = isRTL s"
  "innerWidth (stopAutoplay s) = innerWidth s" "isDragging (stopAutoplay s) = isDragging s"
  "startX (stopAutoplay s) = startX s" "prevTranslate (stopAutoplay s) = prevTranslate s"
  "currentTranslate (stopAutoplay s) = currentTranslate s"
  by (cases "autoplayTimer s"; simp add: stopAutoplay_def)+

text \<open>
  A whole gesture.  With at least one move event the decision is taken on the distance
  between the last and the first pointer position; without one it is taken on the stale
  \<open>currentTranslate\<close>, which \<open>startDrag\<close> does not reset.
\<close>

lemma gesture_decides:
  assumes "on_track N s" and "cards s = Some (c # cs)"
  shows "\<exists>s'. gesture x0 tx xs s = Inr s' \<and> \<not> isDragging s'
     \<and> current s' =
         (let moved = (if xs = [] then currentTranslate s - tx else last xs - x0)
          in if \<bar>moved\<bar> > real_of_int (card_offsetWidth c) / 3
             then (if (moved < 0) = isRTL s then current s - 1 else current s + 1)
             else current s)"
proof -
  from assms(1) obtain ch where tr: "track s = Some ch" by (auto simp: on_track_def)
  let ?s1 = "stopAutoplay (s\<lparr>isDragging := True, startX := x0, prevTranslate := tx,
                   track_transition := False, track_cursor := ''grabbing''\<rparr>)"
  have sd: "startDrag x0 tx s = Inr ?s1" by (simp add: startDrag_def tr)
  have s1: "isDragging ?s1" "track ?s1 \<noteq> None" "startX ?s1 = x0" "prevTranslate ?s1 = tx"
    "currentTranslate ?s1 = currentTranslate s" "cards ?s1 = cards s" "track ?s1 = track s"
    "totalSlides ?s1 = totalSlides s" "timeouts ?s1 = timeouts s" "current ?s1 = current s"
    "isRTL ?s1 = isRTL s" "innerWidth ?s1 = innerWidth s"
    by (simp_all add: stopAutoplay_frame tr)
  from drag_through_last [OF s1(1,2), of xs] obtain s2 where
    s2: "drag_through xs ?s1 = Inr s2"
    "currentTranslate s2 = (if xs = [] then currentTranslate ?s1
                               else prevTranslate ?s1 + (last xs - startX ?s1))"
    "prevTranslate s2 = prevTranslate ?s1" "isDragging s2"
    "cards s2 = cards ?s1" "track s2 = track ?s1" "totalSlides s2 = totalSlides ?s1"
    "timeouts s2 = timeouts ?s1" "current s2 = current ?s1" "isRTL s2 = isRTL ?s1"
    "innerWidth s2 = innerWidth ?s1"
    by blast
  have o: "on_track N s2"
    using assms(1) by (simp add: on_track_def s2 s1)
  have c2: "cards s2 = Some (c # cs)" by (simp add: s2 s1 assms(2))
  have m: "currentTranslate s2 - prevTranslate s2 =
             (if xs = [] then currentTranslate s - tx else last xs - x0)"
    by (simp add: s2 s1)
  from endDrag_decides [OF o s2(4) c2] obtain s' where
    "endDrag s2 = Inr s'" "\<not> isDragging s'"
    "current s' =
         (if \<bar>currentTranslate s2 - prevTranslate s2\<bar> > real_of_int (card_offsetWidth c) / 3
          then (if (currentTranslate s2 - prevTranslate s2 < 0) = isRTL s2
                then current s2 - 1 else current s2 + 1)
          else current s2)"
    by blast
  then show ?thesis
    unfolding m by (simp add: gesture_def sd s2 bind_err_def s1 Let_def)
qed

lemma started_sample:
  "\<exists>s c cs. started (sample_document 3 280) rtl 1280 = Inr s \<and> on_track 3 s \<and> current s = 3
     \<and> isRTL s = rtl \<and> cards s = Some (c # cs) \<and> card_offsetWidth c = 280
     \<and> offset_at s 3 = 912
     \<and> track_transform s = Some (if rtl then 912 else - 912)
     \<and> currentTranslate s = 0 \<and> \<not> isDragging s"
proof -
  let ?doc = "sample_document 3 280"
  from started_on_track [of ?doc _ rtl 1280] obtain s c cs where
    s: "started ?doc rtl 1280 = Inr s" "on_track 3 s" "current s = 3" "isRTL s = rtl"
      "innerWidth s = 1280"
      "track_transform s = Some (real_of_int (if rtl then offset_at s 3 else - offset_at s 3))"
      "cards s = Some (c # cs)" "card_offsetWidth c = 280" "currentTranslate s = 0"
      "\<not> isDragging s"
    by (auto simp: sample_document_def list_ex_iff upt_conv_Cons)
  have o: "offset_at s 3 = 912" by (simp add: offset_at_def s gap_of_def)
  with s show ?thesis by auto
qed

text \<open>
  Claim C3, at a press and release without a move event.  The slider has been set up over
  three cards of 280 pixels in a window of 1280 pixels, left to right: the cursor is 3 and
  the track is translated by -912 pixels.  The pointer is pressed at \<open>x = 100\<close> and released
  with no move in between.  \<open>endDrag\<close> compares \<open>currentTranslate - prevTranslate = 0 - (-912)\<close>
  with a third of 280 and calls \<open>prev()\<close>: the cursor becomes 2, although the pointer has
  moved by 0 pixels.  The same press and release with one move event at \<open>x = 100\<close> in
  between snaps back and leaves the cursor at 3.  (\<open>gesture_decides\<close>: a gesture with a move
  event is decided on the distance between its last and its first pointer position, as the
  claim says.)
\<close>

theorem tap_commits_step:
  "\<exists>s s' s''. started (sample_document 3 280) False 1280 = Inr s
     \<and> current s = 3 \<and> track_transform s = Some (- 912)
     \<and> gesture 100 (- 912) [] s = Inr s'
     \<and> current s' = 2
     \<and> gesture 100 (- 912) [100] s = Inr s''
     \<and> current s'' = 3"
proof -
  from started_sample [of False] obtain s c cs where
    s: "started (sample_document 3 280) False 1280 = Inr s" "on_track 3 s" "current s = 3"
      "isRTL s = False" "cards s = Some (c # cs)" "card_offsetWidth c = 280"
      "track_transform s = Some (- 912)" "currentTranslate s = 0"
    by auto
  from gesture_decides [OF s(2) s(5), of 100 "- 912" "[]"] obtain s' where
    t: "gesture 100 (- 912) [] s = Inr s'" "current s' = 2"
    by (auto simp: s Let_def)
  from gesture_decides [OF s(2) s(5), of 100 "- 912" "[100]"] obtain s'' where
    "gesture 100 (- 912) [100] s = Inr s''" "current s'' = 3"
    by (auto simp: s Let_def)
  with s t show ?thesis by blast
qed

subsection \<open>Missing anchors\<close>

lemma init_retries:
  assumes "slider_anchor_missing doc"
  shows "init doc s =
     s\<lparr>track := doc_track doc, slider_el := doc_slider doc,
       originalCards := (if doc_track doc \<noteq> None \<and> doc_slider doc then [] else originalCards s),
       timeouts := timeouts s @ [(100, RetryInit)]\<rparr>"
  using assms
  by (cases "doc_track doc") (auto simp: slider_anchor_missing_def init_def Let_def)

text \<open>
  Claim C9, amended.  When the wrapper, the circle, an item or one of the two buttons is
  absent, \<open>initCircularTestimonials\<close> returns before it has created anything: the carousel
  is disabled.  When the track, the slider container or every card is absent, the slider's
  \<open>init\<close> returns without an error and leaves the cursor, the slide count, the cards, the
  pagination, the autoplay timer, the resize listener and the transform as they were; it
  stores what the two lookups found, and it sets a timer of 100 ms that runs \<open>init\<close> again.
\<close>

theorem missing_anchor_behaviour:
  "(carousel_anchor_missing cdoc \<longrightarrow> initCircularTestimonials cdoc = Some Disabled)
   \<and> (slider_anchor_missing doc \<longrightarrow>
        init doc s =
          s\<lparr>track := doc_track doc, slider_el := doc_slider doc,
            originalCards := (if doc_track doc \<noteq> None \<and> doc_slider doc then [] else originalCards s),
            timeouts := timeouts s @ [(100, RetryInit)]\<rparr>
        \<and> current (init doc s) = current s \<and> totalSlides (init doc s) = totalSlides s
        \<and> cards (init doc s) = cards s \<and> pagination (init doc s) = pagination s
        \<and> autoplayTimer (init doc s) = autoplayTimer s
        \<and> resize_listeners (init doc s) = resize_listeners s
        \<and> track_transform (init doc s) = track_transform s
        \<and> run_callback doc RetryInit (init doc s) = Inr (init doc (init doc s)))"
proof (intro conjI impI)
  assume "carousel_anchor_missing cdoc"
  then show "initCircularTestimonials cdoc = Some Disabled" by (rule init_disabled)
next
  assume m: "slider_anchor_missing doc"
  show "init doc s =
          s\<lparr>track := doc_track doc, slider_el := doc_slider doc,
            originalCards := (if doc_track doc \<noteq> None \<and> doc_slider doc then [] else originalCards s),
            timeouts := timeouts s @ [(100, RetryInit)]\<rparr>"
    by (rule init_retries [OF m])
  show "current (init doc s) = current s" by (simp add: init_retries [OF m])
  show "totalSlides (init doc s) = totalSlides s" by (simp add: init_retries [OF m])
  show "cards (init doc s) = cards s" by (simp add: init_retries [OF m])
  show "pagination (init doc s) = pagination s" by (simp add: init_retries [OF m])
  show "autoplayTimer (init doc s) = autoplayTimer s" by (simp add: init_retries [OF m])
  show "resize_listeners (init doc s) = resize_listeners s" by (simp add: init_retries [OF m])
  show "track_transform (init doc s) = track_transform s" by (simp add: init_retries [OF m])
  show "run_callback doc RetryInit (init doc s) = Inr (init doc (init doc s))"
    by (simp add: run_callback_def)
qed

theorem missing_anchor_behaviour_witness:
  "carousel_anchor_missing None
   \<and> initCircularTestimonials None = Some Disabled
   \<and> slider_anchor_missing \<lparr>doc_track = Some [], doc_slider = True, doc_pagination = None\<rparr>
   \<and> timeouts (init \<lparr>doc_track = Some [], doc_slider = True, doc_pagination = None\<rparr>
                  (initial_slider False 1280)) = [(100, RetryInit)]
   \<and> current (init \<lparr>doc_track = Some [], doc_slider = True, doc_pagination = None\<rparr>
                  (initial_slider False 1280)) = 0"
  using missing_anchor_behaviour [of None "\<lparr>doc_track = Some [], doc_slider = True, doc_pagination = None\<rparr>"
      "initial_slider False 1280"]
  by (simp add: carousel_anchor_missing_def slider_anchor_missing_def initial_slider_def)

text \<open>
  Without its track the slider's initialisation is not a no-op: it leaves a timer that
  runs \<open>init\<close> again, and once the anchors are in the document that retry sets the slider up.
\<close>

theorem init_without_track_retries:
  "init \<lparr>doc_track = None, doc_slider = False, doc_pagination = None\<rparr> (initial_slider False 1280)
     \<noteq> initial_slider False 1280
   \<and> timeouts (init \<lparr>doc_track = None, doc_slider = False, doc_pagination = None\<rparr>
                  (initial_slider False 1280)) = [(100, RetryInit)]
   \<and> (\<exists>s. bind_err (settle (sample_document 3 280)
                       (init \<lparr>doc_track = None, doc_slider = False, doc_pagination = None\<rparr>
                          (initial_slider False 1280)))
               (settle (sample_document 3 280)) = Inr s
          \<and> on_track 3 s \<and> current s = 3)"
proof -
  let ?bad = "\<lparr>doc_track = None, doc_slider = False, doc_pagination = None\<rparr>"
  let ?s0 = "initial_slider False 1280"
  have i: "init ?bad ?s0 = ?s0\<lparr>timeouts := [(100, RetryInit)]\<rparr>"
    by (simp add: init_def initial_slider_def Let_def)
  have t: "timeouts (init ?bad ?s0) = [(100, RetryInit)]" by (simp add: i)
  have ne: "init ?bad ?s0 \<noteq> ?s0"
  proof
    assume "init ?bad ?s0 = ?s0"
    then have "timeouts (init ?bad ?s0) = timeouts ?s0" by simp
    then have "[(100, RetryInit)] = timeouts ?s0" unfolding t .
    then show False by (simp add: initial_slider_def)
  qed
  have c: "?s0\<lparr>timeouts := [(100, RetryInit)], timeouts := []\<rparr> = ?s0"
    by (simp add: initial_slider_def)
  have "settle (sample_document 3 280) (init ?bad ?s0) = Inr (init (sample_document 3 280) ?s0)"
    unfolding i settle_def by (simp add: c run_callback_def bind_err_def)
  then have "bind_err (settle (sample_document 3 280) (init ?bad ?s0)) (settle (sample_document 3 280))
      = started (sample_document 3 280) False 1280"
    by (simp add: bind_err_def started_def)
  with started_sample [of False] ne t show ?thesis by auto
qed

end
